theory Spec2Isabelle
  imports Main "HOL-Library.Word" "HOL-Library.AList" "HOL-Library.Multiset"
begin

section \<open>The graph diameter package (node.go)\<close>

subsection \<open>Data model\<close>

text \<open>
  \<^verbatim>\<open>type nodeID int32\<close>: a 32-bit machine integer. The only arithmetic on it is the
  conversion \<^verbatim>\<open>nodeID(len(s))\<close> of a Go \<^verbatim>\<open>int\<close> (64 bits on the usual platforms), which
  keeps the low 32 bits of the length; ids are only ever compared for equality, so the
  sign does not matter. \<^verbatim>\<open>type nodeName string\<close>.
\<close>

type_synonym nodeID = "32 word"
type_synonym nodeName = string

text \<open>
  A Go map is modelled as an association list with distinct keys: \<open>map_of\<close> is the
  lookup \<^verbatim>\<open>m[k]\<close>, \<open>AList.update\<close> is the store \<^verbatim>\<open>m[k] = v\<close>, \<open>length\<close> is
  \<^verbatim>\<open>len(m)\<close>. The position of an entry in the list has no meaning for the program:
  a \<^verbatim>\<open>range\<close> statement over a map visits the entries in an order the Go runtime picks
  afresh every time. That choice is an explicit parameter of the model (type \<open>order\<close>
  below), and the theorems hold for every choice.
\<close>

type_synonym symbolTable = "(nodeName \<times> nodeID) list"

text \<open>
  \<^verbatim>\<open>*node\<close>: nodes are heap objects shared through pointers. The heap is the list of
  all node objects allocated so far and a pointer is an index into it; an
  allocation \<^verbatim>\<open>&node{...}\<close> appends. The program never stores a nil \<^verbatim>\<open>*node\<close> in a map
  or in the queue, so these pointers are plain addresses; the one nullable pointer,
  \<^verbatim>\<open>bfsNode.parent\<close>, is an \<open>option\<close>. \<open>h ! p\<close> reads the object at address \<open>p\<close>; as
  every Go pointer is valid, every address a graph built by the program holds is below
  the length of the heap (part of the invariant \<open>wf_graph\<close> below).

  \<open>Graph\<close> is the Go struct with its two embedded maps, together with the heap of node
  objects they point into. The methods of \<^verbatim>\<open>nodes\<close> (\<^verbatim>\<open>get\<close>, \<^verbatim>\<open>addEdge\<close>,
  \<^verbatim>\<open>longestShortestPath\<close>, \<^verbatim>\<open>diameter\<close>) are modelled on the same record, of which they
  read and write only \<open>nodes\<close> and \<open>heap\<close>. \<^verbatim>\<open>bfsNode.depth\<close> and the results are Go
  \<^verbatim>\<open>int\<close>s, modelled as unbounded integers (they stay between 0 and \<open>2 ^ 32\<close>, see
  \<open>diameter_range\<close> at the end).
\<close>

type_synonym addr = nat

record node =
  id' :: nodeID
  adj :: "(nodeID \<times> addr) list"

record Graph =
  symbolTable :: symbolTable
  nodes :: "(nodeID \<times> addr) list"
  heap :: "node list"

record bfsNode =
  parent :: "addr option"
  depth :: int

type_synonym bfsData = "(nodeID \<times> bfsNode) list"

text \<open>
  The order in which the \<open>k\<close>-th \<^verbatim>\<open>range\<close> statement of one call visits the entries of
  its map. Any behaviour of the Go runtime is some such function that permutes its
  argument (\<open>range_ok\<close>).
\<close>

type_synonym order = "nat \<Rightarrow> (nodeID \<times> addr) list \<Rightarrow> (nodeID \<times> addr) list"

definition range_ok :: "order \<Rightarrow> bool" where
  "range_ok ord = (\<forall>k xs. mset (ord k xs) = mset xs)"

definition in_order :: order where
  "in_order k xs = xs"

definition reversed :: order where
  "reversed k xs = rev xs"

subsection \<open>Symbol table and graph construction\<close>

text \<open>\<^verbatim>\<open>func (s symbolTable) getID(name nodeName) nodeID\<close>\<close>

definition getID :: "symbolTable \<Rightarrow> nodeName \<Rightarrow> nodeID \<times> symbolTable" where
  "getID s name =
     (case map_of s name of
        Some i \<Rightarrow> (i, s)
      | None \<Rightarrow> (let i = (of_nat (length s) :: nodeID) in (i, AList.update name i s)))"

text \<open>\<^verbatim>\<open>func New() *Graph\<close>\<close>

definition New :: Graph where
  "New = \<lparr>symbolTable = [], nodes = [], heap = []\<rparr>"

text \<open>\<^verbatim>\<open>func (nodes nodes) get(id nodeID) *node\<close>\<close>

definition get :: "Graph \<Rightarrow> nodeID \<Rightarrow> addr \<times> Graph" where
  "get g i =
     (case map_of (nodes g) i of
        Some n \<Rightarrow> (n, g)
      | None \<Rightarrow> (let n = length (heap g) in
          (n, g\<lparr>nodes := AList.update i n (nodes g),
                heap := heap g @ [\<lparr>id' = i, adj = []\<rparr>]\<rparr>)))"

text \<open>\<^verbatim>\<open>func (n *node) add(adjNode *node) { n.adj[adjNode.id] = adjNode }\<close>\<close>

definition add :: "node list \<Rightarrow> addr \<Rightarrow> addr \<Rightarrow> node list" where
  "add h n adjNode =
     h[n := (h ! n)\<lparr>adj := AList.update (id' (h ! adjNode)) adjNode (adj (h ! n))\<rparr>]"

text \<open>\<^verbatim>\<open>func (nodes *nodes) addEdge(a, b nodeID)\<close>\<close>

definition nodes_addEdge :: "Graph \<Rightarrow> nodeID \<Rightarrow> nodeID \<Rightarrow> Graph" where
  "nodes_addEdge g a b =
     (case get g a of (an, g1) \<Rightarrow>
      case get g1 b of (bn, g2) \<Rightarrow>
        g2\<lparr>heap := add (add (heap g2) an bn) bn an\<rparr>)"

text \<open>\<^verbatim>\<open>func (g *Graph) addEdge(a, b nodeName)\<close>\<close>

definition addEdge :: "Graph \<Rightarrow> nodeName \<Rightarrow> nodeName \<Rightarrow> Graph" where
  "addEdge g a b =
     (case getID (symbolTable g) a of (aid, s1) \<Rightarrow>
      case getID s1 b of (bid, s2) \<Rightarrow>
        nodes_addEdge (g\<lparr>symbolTable := s2\<rparr>) aid bid)"

text \<open>\<^verbatim>\<open>func (e edgeList) build(g *Graph)\<close> of the test file, from a graph and from \<open>New\<close>.\<close>

definition build_from :: "Graph \<Rightarrow> (nodeName \<times> nodeName) list \<Rightarrow> Graph" where
  "build_from g es = fold (\<lambda>e g. addEdge g (fst e) (snd e)) es g"

definition build :: "(nodeName \<times> nodeName) list \<Rightarrow> Graph" where
  "build es = build_from New es"

subsection \<open>Breadth-first search and diameter\<close>

text \<open>\<^verbatim>\<open>bfsData[id]\<close>: a missing key reads as the zero value \<^verbatim>\<open>bfsNode{nil, 0}\<close>.\<close>

definition bfs_get :: "bfsData \<Rightarrow> nodeID \<Rightarrow> bfsNode" where
  "bfs_get d i = (case map_of d i of Some b \<Rightarrow> b | None \<Rightarrow> \<lparr>parent = None, depth = 0\<rparr>)"

text \<open>
  The body of \<^verbatim>\<open>for id, m := range n.adj\<close>, on the pair of the BFS map and the queue:
  \<^verbatim>\<open>
  bm := bfsData[id]
  if bm.parent == nil {
      bfsData[id] = bfsNode{parent: n, depth: bfsData[n.id].depth + 1}
      q.PushBack(m)
  }\<close>
\<close>

definition visit :: "node list \<Rightarrow> addr \<Rightarrow> nodeID \<times> addr \<Rightarrow> bfsData \<times> addr list \<Rightarrow> bfsData \<times> addr list" where
  "visit h n e s =
     (case e of (i, m) \<Rightarrow> case s of (d, q) \<Rightarrow>
        if parent (bfs_get d i) = None
        then (AList.update i \<lparr>parent = Some n, depth = depth (bfs_get d (id' (h ! n))) + 1\<rparr> d,
              q @ [m])
        else (d, q))"

text \<open>Number of node ids not yet discovered: the termination measure of the BFS.\<close>

definition undiscovered :: "bfsData \<Rightarrow> nat" where
  "undiscovered d = card {i. parent (bfs_get d i) = None}"

lemma bfs_get_update:
  "bfs_get (AList.update i b d) j = (if j = i then b else bfs_get d j)"
  by (simp add: bfs_get_def update_conv')

lemma undiscovered_update:
  assumes "parent (bfs_get d i) = None"
  shows "undiscovered (AList.update i \<lparr>parent = Some n, depth = k\<rparr> d) < undiscovered d"
proof -
  have "{j. parent (bfs_get (AList.update i \<lparr>parent = Some n, depth = k\<rparr> d) j) = None}
        = {j. parent (bfs_get d j) = None} - {i}"
    by (auto simp: bfs_get_update)
  moreover have "i \<in> {j. parent (bfs_get d j) = None}"
    using assms by simp
  ultimately show ?thesis
    unfolding undiscovered_def
    by (metis card_Diff1_less finite_code)
qed

lemma visit_measure:
  "visit h n e (d, q) = (d', q') \<Longrightarrow>
   2 * undiscovered d' + length q' \<le> 2 * undiscovered d + length q"
  using undiscovered_update [of d "fst e" n "depth (bfs_get d (id' (h ! n))) + 1"]
  by (auto simp: visit_def split: prod.splits if_splits)

lemma fold_visit_measure:
  "fold (visit h n) es (d, q) = (d', q') \<Longrightarrow>
   2 * undiscovered d' + length q' \<le> 2 * undiscovered d + length q"
proof (induction es arbitrary: d q)
  case Nil
  then show ?case by simp
next
  case (Cons e es)
  obtain d1 q1 where v: "visit h n e (d, q) = (d1, q1)"
    by (cases "visit h n e (d, q)")
  with Cons.prems have "fold (visit h n) es (d1, q1) = (d', q')"
    by simp
  from Cons.IH [OF this] visit_measure [OF v] show ?case
    by linarith
qed

text \<open>
  The loop of \<^verbatim>\<open>longestShortestPath\<close>: \<open>q\<close> is the queue (\<^verbatim>\<open>Front\<close>/\<^verbatim>\<open>Remove\<close> take the
  head, \<^verbatim>\<open>PushBack\<close> appends), \<open>n\<close> the node dequeued last, \<open>k\<close> counts the \<^verbatim>\<open>range\<close>
  statements executed so far. It returns the BFS map and the last node dequeued.
\<close>

function bfs_loop :: "order \<Rightarrow> nat \<Rightarrow> node list \<Rightarrow> bfsData \<Rightarrow> addr list \<Rightarrow> addr \<Rightarrow> bfsData \<times> addr" where
  "bfs_loop ord k h d [] n = (d, n)"
| "bfs_loop ord k h d (x # q) n =
     (case fold (visit h x) (ord k (adj (h ! x))) (d, q) of
        (d', q') \<Rightarrow> bfs_loop ord (Suc k) h d' q' x)"
  by pat_completeness auto
termination
  apply (relation "measure (\<lambda>(ord, k, h, d, q, n). 2 * undiscovered d + length q)")
   apply simp
  apply (auto dest: fold_visit_measure [OF sym])
  done

text \<open>
  Termination as a theorem: every argument is in the domain of the recursion of
  \<open>bfs_loop\<close>, because each iteration lowers twice the number of undiscovered ids plus
  the length of the queue.
\<close>

lemma bfs_loop_terminates: "bfs_loop_dom (ord, k, h, d, q, n)"
proof -
  have "All bfs_loop_dom"
  proof (rule "bfs_loop.termination")
    show "wf (measure (\<lambda>(ord, k, h, d, q, n). 2 * undiscovered d + length q))"
      by simp
  next
    fix ord :: order and k h d x q and n :: addr and d' q'
    assume "(d', q') = fold (visit h x) (ord k (adj (h ! x))) (d, q)"
    then have "fold (visit h x) (ord k (adj (h ! x))) (d, q) = (d', q')" by simp
    from fold_visit_measure [OF this]
    show "((ord, Suc k, h, d', q', x), ord, k, h, d, x # q, n)
          \<in> measure (\<lambda>(ord, k, h, d, q, n). 2 * undiscovered d + length q)"
      by simp
  qed
  then show ?thesis by simp
qed

text \<open>\<^verbatim>\<open>func (nodes nodes) longestShortestPath(start nodeID) int\<close>\<close>

definition longestShortestPath :: "order \<Rightarrow> Graph \<Rightarrow> nodeID \<Rightarrow> int \<times> Graph" where
  "longestShortestPath ord g start =
     (case get g start of (n, g') \<Rightarrow>
      case bfs_loop ord 0 (heap g')
             (AList.update (id' (heap g' ! n)) \<lparr>parent = Some n, depth = 0\<rparr> []) [n] n of
        (d, l) \<Rightarrow> (depth (bfs_get d (id' (heap g' ! l))), g'))"

text \<open>
  \<^verbatim>\<open>func (nodes nodes) diameter() int\<close>: the loop over the keys of \<open>nodes\<close>, in the order
  \<open>sched 0 0\<close>; the \<open>j\<close>-th search uses the orders \<open>sched (Suc j)\<close>.
\<close>

fun diameter_loop :: "(nat \<Rightarrow> order) \<Rightarrow> nat \<Rightarrow> (nodeID \<times> addr) list \<Rightarrow> int \<Rightarrow> Graph \<Rightarrow> int \<times> Graph" where
  "diameter_loop sched j [] diam g = (diam, g)"
| "diameter_loop sched j (e # es) diam g =
     (case longestShortestPath (sched (Suc j)) g (fst e) of
        (df, g') \<Rightarrow> diameter_loop sched (Suc j) es (if df > diam then df else diam) g')"

definition diameter :: "(nat \<Rightarrow> order) \<Rightarrow> Graph \<Rightarrow> int \<times> Graph" where
  "diameter sched g = diameter_loop sched 0 (sched 0 0 (nodes g)) 0 g"

text \<open>
  A schedule gives every \<^verbatim>\<open>range\<close> statement of one \<^verbatim>\<open>diameter()\<close> call its order; it is
  a behaviour of the runtime when each of its orders is.
\<close>

definition sched_ok :: "(nat \<Rightarrow> order) \<Rightarrow> bool" where
  "sched_ok sched = (\<forall>j. range_ok (sched j))"

lemma range_ok_in_order: "range_ok in_order"
  by (simp add: range_ok_def in_order_def)

lemma range_ok_reversed: "range_ok reversed"
  by (simp add: range_ok_def reversed_def)

lemma sched_ok_in_order: "sched_ok (\<lambda>j. in_order)"
  by (simp add: sched_ok_def range_ok_in_order)

lemma range_ok_set: "range_ok ord \<Longrightarrow> set (ord k xs) = set xs"
  unfolding range_ok_def by (rule mset_eq_setD) simp

section \<open>The diameter query leaves the graph as it is\<close>

lemma get_present: "i \<in> fst ` set (nodes g) \<Longrightarrow> snd (get g i) = g"
  by (auto simp: get_def map_of_eq_None_iff split: option.splits)

lemma longestShortestPath_frame:
  "i \<in> fst ` set (nodes g) \<Longrightarrow> snd (longestShortestPath ord g i) = g"
  using get_present [of i g]
  by (auto simp: longestShortestPath_def split: prod.splits)

lemma diameter_loop_frame:
  "fst ` set es \<subseteq> fst ` set (nodes g) \<Longrightarrow> snd (diameter_loop sched j es diam g) = g"
proof (induction es arbitrary: j diam)
  case Nil
  then show ?case by simp
next
  case (Cons e es)
  obtain df g' where l: "longestShortestPath (sched (Suc j)) g (fst e) = (df, g')"
    by (cases "longestShortestPath (sched (Suc j)) g (fst e)")
  from Cons.prems have "fst e \<in> fst ` set (nodes g)" by simp
  then have "snd (longestShortestPath (sched (Suc j)) g (fst e)) = g"
    by (rule longestShortestPath_frame)
  with l have g': "g' = g" by simp
  from Cons.prems have "fst ` set es \<subseteq> fst ` set (nodes g)" by simp
  then show ?case
    using Cons.IH l g' by simp
qed

lemma diameter_frame:
  assumes "range_ok (sched 0)"
  shows "snd (diameter sched g) = g"
proof -
  from assms have "set (sched 0 0 (nodes g)) = set (nodes g)"
    by (rule range_ok_set)
  then show ?thesis
    unfolding diameter_def by (intro diameter_loop_frame) simp
qed

text \<open>
  C9. For every graph, whatever order the runtime picks for the \<^verbatim>\<open>range\<close> statements,
  the graph after \<^verbatim>\<open>diameter()\<close> is the graph before it: the symbol table, the map
  of nodes and every node object (with its adjacency map) are unchanged. The only
  statement of the query that could write, \<^verbatim>\<open>nodes.get\<close>, is called on keys of
  \<open>nodes\<close> only.
\<close>

theorem diameter_does_not_mutate:
  assumes "sched_ok sched"
  shows "snd (diameter sched g) = g
       \<and> symbolTable (snd (diameter sched g)) = symbolTable g
       \<and> nodes (snd (diameter sched g)) = nodes g
       \<and> heap (snd (diameter sched g)) = heap g"
  using assms diameter_frame [of sched g] by (simp add: sched_ok_def)

theorem diameter_does_not_mutate_witness:
  "sched_ok (\<lambda>j. in_order)
   \<and> snd (diameter (\<lambda>j. in_order) (build [(''a'', ''b''), (''b'', ''c'')]))
       = build [(''a'', ''b''), (''b'', ''c'')]
   \<and> heap (snd (diameter (\<lambda>j. in_order) (build [(''a'', ''b''), (''b'', ''c'')])))
       = heap (build [(''a'', ''b''), (''b'', ''c'')])"
  using diameter_does_not_mutate [of "\<lambda>j. in_order" "build [(''a'', ''b''), (''b'', ''c'')]"]
    sched_ok_in_order
  by simp

section \<open>The graph of node ids and its invariant\<close>

text \<open>
  The graph a \<open>Graph\<close> value holds: its nodes are the keys of \<open>nodes\<close>, and there is an
  edge from \<open>i\<close> to \<open>j\<close> when the adjacency map of the node object of \<open>i\<close> has the key \<open>j\<close>.
\<close>

definition node_ids :: "Graph \<Rightarrow> nodeID set" where
  "node_ids g = fst ` set (nodes g)"

definition neighbours :: "Graph \<Rightarrow> nodeID \<Rightarrow> nodeID list" where
  "neighbours g i =
     (case map_of (nodes g) i of None \<Rightarrow> [] | Some p \<Rightarrow> map fst (adj (heap g ! p)))"

definition edges :: "Graph \<Rightarrow> (nodeID \<times> nodeID) set" where
  "edges g = {(i, j). j \<in> set (neighbours g i)}"

text \<open>
  The invariant of the construction. The keys of \<open>nodes\<close> are distinct; \<open>nodes\<close> maps an
  id to an allocated node object that carries this id; every allocated object is
  registered in \<open>nodes\<close> under its id; every adjacency map has distinct keys, holds
  under a key \<open>k\<close> the very pointer that \<open>nodes\<close> holds for \<open>k\<close>, and the object it
  points to points back.
\<close>

definition wf_graph :: "Graph \<Rightarrow> bool" where
  "wf_graph g =
     (distinct (map fst (nodes g))
      \<and> (\<forall>i p. map_of (nodes g) i = Some p \<longrightarrow> p < length (heap g) \<and> id' (heap g ! p) = i)
      \<and> (\<forall>p < length (heap g).
            map_of (nodes g) (id' (heap g ! p)) = Some p
            \<and> distinct (map fst (adj (heap g ! p)))
            \<and> (\<forall>k q. map_of (adj (heap g ! p)) k = Some q \<longrightarrow>
                  map_of (nodes g) k = Some q
                  \<and> map_of (adj (heap g ! q)) (id' (heap g ! p)) = Some p)))"

lemma wf_graph_New: "wf_graph New"
  by (simp add: wf_graph_def New_def)

lemma length_add: "length (add h n m) = length h"
  by (simp add: add_def)

lemma nth_add:
  "p < length h \<Longrightarrow>
   add h n m ! p =
     (if p = n then (h ! n)\<lparr>adj := AList.update (id' (h ! m)) m (adj (h ! n))\<rparr> else h ! p)"
  by (simp add: add_def)

lemma id_add: "p < length h \<Longrightarrow> id' (add h n m ! p) = id' (h ! p)"
  by (simp add: nth_add)

lemma link_length: "length (add (add h an bn) bn an) = length h"
  by (simp add: length_add)

lemma link_id: "p < length h \<Longrightarrow> id' (add (add h an bn) bn an ! p) = id' (h ! p)"
  by (simp add: id_add length_add)

lemma link_adj:
  assumes "p < length h" "an < length h" "bn < length h"
  shows "map_of (adj (add (add h an bn) bn an ! p)) =
         (\<lambda>k. if p = bn \<and> k = id' (h ! an) then Some an
              else if p = an \<and> k = id' (h ! bn) then Some bn
              else map_of (adj (h ! p)) k)"
  using assms by (auto simp: nth_add length_add update_conv' fun_eq_iff)

lemma link_distinct:
  assumes "p < length h" "distinct (map fst (adj (h ! p)))"
  shows "distinct (map fst (adj (add (add h an bn) bn an ! p)))"
  using assms by (auto simp: nth_add length_add distinct_update)

lemma get_cases:
  obtains (old) p where "map_of (nodes g) i = Some p" "get g i = (p, g)"
  | (new) "map_of (nodes g) i = None"
      "get g i = (length (heap g),
         g\<lparr>nodes := AList.update i (length (heap g)) (nodes g),
           heap := heap g @ [\<lparr>id' = i, adj = []\<rparr>]\<rparr>)"
  by (cases "map_of (nodes g) i") (auto simp: get_def Let_def)

lemma wf_graphI:
  assumes "distinct (map fst (nodes g))"
    and "\<And>i p. map_of (nodes g) i = Some p \<Longrightarrow> p < length (heap g) \<and> id' (heap g ! p) = i"
    and "\<And>p. p < length (heap g) \<Longrightarrow> map_of (nodes g) (id' (heap g ! p)) = Some p"
    and "\<And>p. p < length (heap g) \<Longrightarrow> distinct (map fst (adj (heap g ! p)))"
    and "\<And>p k q. p < length (heap g) \<Longrightarrow> map_of (adj (heap g ! p)) k = Some q \<Longrightarrow>
           map_of (nodes g) k = Some q"
    and "\<And>p k q. p < length (heap g) \<Longrightarrow> map_of (adj (heap g ! p)) k = Some q \<Longrightarrow>
           map_of (adj (heap g ! q)) (id' (heap g ! p)) = Some p"
  shows "wf_graph g"
  unfolding wf_graph_def using assms by blast

lemma wf_distinct: "wf_graph g \<Longrightarrow> distinct (map fst (nodes g))"
  by (simp add: wf_graph_def)

lemma wf_ptr:
  "wf_graph g \<Longrightarrow> map_of (nodes g) i = Some p \<Longrightarrow> p < length (heap g) \<and> id' (heap g ! p) = i"
  by (simp add: wf_graph_def)

lemma wf_reg: "wf_graph g \<Longrightarrow> p < length (heap g) \<Longrightarrow> map_of (nodes g) (id' (heap g ! p)) = Some p"
  by (simp add: wf_graph_def)

lemma wf_adj_distinct:
  "wf_graph g \<Longrightarrow> p < length (heap g) \<Longrightarrow> distinct (map fst (adj (heap g ! p)))"
  by (simp add: wf_graph_def)

lemma wf_adj_ptr:
  "wf_graph g \<Longrightarrow> p < length (heap g) \<Longrightarrow> map_of (adj (heap g ! p)) k = Some q \<Longrightarrow>
   map_of (nodes g) k = Some q"
  by (simp add: wf_graph_def)

lemma wf_adj_sym:
  "wf_graph g \<Longrightarrow> p < length (heap g) \<Longrightarrow> map_of (adj (heap g ! p)) k = Some q \<Longrightarrow>
   map_of (adj (heap g ! q)) (id' (heap g ! p)) = Some p"
  by (simp add: wf_graph_def)

lemma wf_graph_alloc:
  assumes wf: "wf_graph g" and new: "map_of (nodes g) i = None"
  shows "wf_graph (g\<lparr>nodes := AList.update i (length (heap g)) (nodes g),
                     heap := heap g @ [\<lparr>id' = i, adj = []\<rparr>]\<rparr>)"
    (is "wf_graph ?g")
proof (rule wf_graphI)
  show "distinct (map fst (nodes ?g))"
    using wf_distinct [OF wf] by (simp add: distinct_update)
next
  fix j p
  assume "map_of (nodes ?g) j = Some p"
  then have "(j = i \<and> p = length (heap g)) \<or> (j \<noteq> i \<and> map_of (nodes g) j = Some p)"
    by (auto simp: update_conv' split: if_splits)
  then show "p < length (heap ?g) \<and> id' (heap ?g ! p) = j"
    using wf_ptr [OF wf, of j p] by (auto simp: nth_append)
next
  fix p
  assume "p < length (heap ?g)"
  then consider "p = length (heap g)" | "p < length (heap g)"
    by (auto simp: less_Suc_eq)
  then show "map_of (nodes ?g) (id' (heap ?g ! p)) = Some p"
  proof cases
    case 1
    then show ?thesis by (simp add: update_conv')
  next
    case 2
    from wf_reg [OF wf 2] new have "id' (heap g ! p) \<noteq> i" by auto
    with wf_reg [OF wf 2] 2 show ?thesis by (simp add: update_conv' nth_append)
  qed
next
  fix p
  assume "p < length (heap ?g)"
  then consider "p = length (heap g)" | "p < length (heap g)"
    by (auto simp: less_Suc_eq)
  then show "distinct (map fst (adj (heap ?g ! p)))"
    using wf_adj_distinct [OF wf, of p] by cases (simp_all add: nth_append)
next
  fix p k q
  assume p: "p < length (heap ?g)" and a: "map_of (adj (heap ?g ! p)) k = Some q"
  from p a have p': "p < length (heap g)"
    by (cases "p = length (heap g)") (auto simp: less_Suc_eq)
  with a have a': "map_of (adj (heap g ! p)) k = Some q"
    by (simp add: nth_append)
  from wf_adj_ptr [OF wf p' a'] new have "k \<noteq> i" by auto
  with wf_adj_ptr [OF wf p' a'] show "map_of (nodes ?g) k = Some q"
    by (simp add: update_conv')
next
  fix p k q
  assume p: "p < length (heap ?g)" and a: "map_of (adj (heap ?g ! p)) k = Some q"
  from p a have p': "p < length (heap g)"
    by (cases "p = length (heap g)") (auto simp: less_Suc_eq)
  with a have a': "map_of (adj (heap g ! p)) k = Some q"
    by (simp add: nth_append)
  from wf_ptr [OF wf wf_adj_ptr [OF wf p' a']] have "q < length (heap g)" by simp
  with wf_adj_sym [OF wf p' a'] p' show "map_of (adj (heap ?g ! q)) (id' (heap ?g ! p)) = Some p"
    by (simp add: nth_append)
qed

lemma wf_graph_link:
  assumes wf: "wf_graph g"
    and a: "map_of (nodes g) a = Some an" and b: "map_of (nodes g) b = Some bn"
  shows "wf_graph (g\<lparr>heap := add (add (heap g) an bn) bn an\<rparr>)" (is "wf_graph ?g")
proof -
  let ?h = "heap g"
  from wf_ptr [OF wf a] have an: "an < length ?h" "id' (?h ! an) = a" by simp_all
  from wf_ptr [OF wf b] have bn: "bn < length ?h" "id' (?h ! bn) = b" by simp_all
  have len: "length (heap ?g) = length ?h" by (simp add: link_length)
  have ident: "id' (heap ?g ! p) = id' (?h ! p)" if "p < length ?h" for p
    using that by (simp add: link_id)
  have adj': "map_of (adj (heap ?g ! p)) k =
        (if p = bn \<and> k = a then Some an
         else if p = an \<and> k = b then Some bn
         else map_of (adj (?h ! p)) k)" if "p < length ?h" for p k
    using link_adj [OF that an(1) bn(1)] an(2) bn(2) by simp
  show ?thesis
  proof (rule wf_graphI)
    show "distinct (map fst (nodes ?g))"
      using wf_distinct [OF wf] by simp
  next
    fix i p assume "map_of (nodes ?g) i = Some p"
    then have "map_of (nodes g) i = Some p" by simp
    from wf_ptr [OF wf this] show "p < length (heap ?g) \<and> id' (heap ?g ! p) = i"
      using len ident by simp
  next
    fix p assume "p < length (heap ?g)"
    then have p: "p < length ?h" using len by simp
    from wf_reg [OF wf p] show "map_of (nodes ?g) (id' (heap ?g ! p)) = Some p"
      using ident [OF p] by simp
  next
    fix p assume "p < length (heap ?g)"
    then have p: "p < length ?h" using len by simp
    from link_distinct [OF p wf_adj_distinct [OF wf p]]
    show "distinct (map fst (adj (heap ?g ! p)))" by simp
  next
    fix p k q
    assume "p < length (heap ?g)" and e: "map_of (adj (heap ?g ! p)) k = Some q"
    then have p: "p < length ?h" using len by simp
    from e adj' [OF p, of k] wf_adj_ptr [OF wf p, of k q] a b
    show "map_of (nodes ?g) k = Some q"
      by (auto split: if_splits)
  next
    fix p k q
    assume "p < length (heap ?g)" and e: "map_of (adj (heap ?g ! p)) k = Some q"
    then have p: "p < length ?h" using len by simp
    have goal: "map_of (adj (heap ?g ! q)) (id' (?h ! p)) = Some p"
    proof (cases "p = bn \<and> k = a")
      case True
      with e adj' [OF p, of k] have "q = an" by simp
      moreover have "map_of (adj (heap ?g ! an)) b = Some bn"
        using adj' [OF an(1), of b] by simp
      ultimately show ?thesis using True bn by simp
    next
      case False
      note nfirst = this
      show ?thesis
      proof (cases "p = an \<and> k = b")
        case True
        with nfirst e adj' [OF p, of k] have "q = bn" by auto
        moreover have "map_of (adj (heap ?g ! bn)) a = Some an"
          using adj' [OF bn(1), of a] by simp
        ultimately show ?thesis using True an by simp
      next
        case False
        with nfirst e adj' [OF p, of k] have old: "map_of (adj (?h ! p)) k = Some q" by auto
        from wf_ptr [OF wf wf_adj_ptr [OF wf p old]] have q: "q < length ?h" by simp
        from wf_adj_sym [OF wf p old] have rev_edge: "map_of (adj (?h ! q)) (id' (?h ! p)) = Some p" .
        have pa: "id' (?h ! p) = a \<Longrightarrow> p = an"
          using wf_reg [OF wf p] a by simp
        have pb: "id' (?h ! p) = b \<Longrightarrow> p = bn"
          using wf_reg [OF wf p] b by simp
        show ?thesis
          unfolding adj' [OF q, of "id' (?h ! p)"] using rev_edge pa pb by simp
      qed
    qed
    then show "map_of (adj (heap ?g ! q)) (id' (heap ?g ! p)) = Some p"
      using ident [OF p] by simp
  qed
qed

lemma map_of_fst_iff: "j \<in> set (map fst xs) \<longleftrightarrow> (\<exists>q. map_of xs j = Some q)"
  using dom_map_of_conv_image_fst [of xs] by (auto simp: dom_def)

lemma edges_iff:
  "(i, j) \<in> edges g \<longleftrightarrow>
   (\<exists>p q. map_of (nodes g) i = Some p \<and> map_of (adj (heap g ! p)) j = Some q)"
proof (cases "map_of (nodes g) i")
  case None
  then show ?thesis by (simp add: edges_def neighbours_def)
next
  case (Some p)
  then show ?thesis
    using map_of_fst_iff [of j "adj (heap g ! p)"] by (simp add: edges_def neighbours_def)
qed

lemma node_ids_iff: "i \<in> node_ids g \<longleftrightarrow> (\<exists>p. map_of (nodes g) i = Some p)"
  using dom_map_of_conv_image_fst [of "nodes g"] by (auto simp: node_ids_def dom_def)

lemma edges_link:
  assumes wf: "wf_graph g"
    and a: "map_of (nodes g) a = Some an" and b: "map_of (nodes g) b = Some bn"
  shows "edges (g\<lparr>heap := add (add (heap g) an bn) bn an\<rparr>) = edges g \<union> {(a, b), (b, a)}"
    (is "edges ?g = _")
proof -
  let ?h = "heap g"
  from wf_ptr [OF wf a] have an: "an < length ?h" "id' (?h ! an) = a" by simp_all
  from wf_ptr [OF wf b] have bn: "bn < length ?h" "id' (?h ! bn) = b" by simp_all
  have adj': "map_of (adj (heap ?g ! p)) k =
        (if p = bn \<and> k = a then Some an
         else if p = an \<and> k = b then Some bn
         else map_of (adj (?h ! p)) k)" if "p < length ?h" for p k
    using link_adj [OF that an(1) bn(1)] an(2) bn(2) by simp
  have "(i, j) \<in> edges ?g \<longleftrightarrow> (i, j) \<in> edges g \<union> {(a, b), (b, a)}" for i j
  proof (cases "map_of (nodes g) i")
    case None
    with a b show ?thesis by (auto simp: edges_iff)
  next
    case (Some p)
    from wf_ptr [OF wf Some] have p: "p < length ?h" "id' (?h ! p) = i" by simp_all
    have pa: "p = an \<longleftrightarrow> i = a"
      using Some a an(2) p(2) by (metis option.inject)
    have pb: "p = bn \<longleftrightarrow> i = b"
      using Some b bn(2) p(2) by (metis option.inject)
    have "(i, j) \<in> edges ?g \<longleftrightarrow> (\<exists>q. map_of (adj (heap ?g ! p)) j = Some q)"
      using Some by (simp add: edges_iff)
    moreover have "(i, j) \<in> edges g \<longleftrightarrow> (\<exists>q. map_of (adj (?h ! p)) j = Some q)"
      using Some by (simp add: edges_iff)
    ultimately show ?thesis
      unfolding adj' [OF p(1), of j] using pa pb by auto
  qed
  then show ?thesis by auto
qed

lemma get_spec:
  assumes wf: "wf_graph g" and get: "get g i = (p, g1)"
  shows "wf_graph g1" and "map_of (nodes g1) i = Some p"
    and "node_ids g1 = insert i (node_ids g)" and "edges g1 = edges g"
    and "symbolTable g1 = symbolTable g"
proof -
  show "wf_graph g1"
    using wf get wf_graph_alloc [OF wf, of i] by (cases rule: get_cases [of g i]) auto
  show "map_of (nodes g1) i = Some p"
    using get by (cases rule: get_cases [of g i]) (auto simp: update_conv')
  show "node_ids g1 = insert i (node_ids g)"
    using get by (cases rule: get_cases [of g i]) (auto simp: node_ids_iff update_conv' split: if_splits)
  show "symbolTable g1 = symbolTable g"
    using get by (cases rule: get_cases [of g i]) auto
  show "edges g1 = edges g"
  proof (cases rule: get_cases [of g i])
    case (old p)
    with get show ?thesis by simp
  next
    case new
    with get have g1: "g1 = g\<lparr>nodes := AList.update i (length (heap g)) (nodes g),
           heap := heap g @ [\<lparr>id' = i, adj = []\<rparr>]\<rparr>" by auto
    have "(j, k) \<in> edges g1 \<longleftrightarrow> (j, k) \<in> edges g" for j k
    proof (cases "j = i")
      case True
      with new(1) show ?thesis by (simp add: edges_iff g1 update_conv')
    next
      case False
      show ?thesis
      proof (cases "map_of (nodes g) j")
        case None
        with False show ?thesis by (simp add: edges_iff g1 update_conv')
      next
        case (Some r)
        from wf_ptr [OF wf Some] have "r < length (heap g)" by simp
        with False Some show ?thesis by (simp add: edges_iff g1 update_conv' nth_append)
      qed
    qed
    then show ?thesis by auto
  qed
qed

lemma nodes_addEdge_spec:
  assumes wf: "wf_graph g"
  shows "wf_graph (nodes_addEdge g a b)"
    and "node_ids (nodes_addEdge g a b) = node_ids g \<union> {a, b}"
    and "edges (nodes_addEdge g a b) = edges g \<union> {(a, b), (b, a)}"
    and "symbolTable (nodes_addEdge g a b) = symbolTable g"
proof -
  obtain an g1 where g1: "get g a = (an, g1)" by (cases "get g a")
  obtain bn g2 where g2: "get g1 b = (bn, g2)" by (cases "get g1 b")
  note s1 = get_spec [OF wf g1]
  note s2 = get_spec [OF s1(1) g2]
  have r: "nodes_addEdge g a b = g2\<lparr>heap := add (add (heap g2) an bn) bn an\<rparr>"
    by (simp add: nodes_addEdge_def g1 g2)
  have a: "map_of (nodes g2) a = Some an"
  proof (cases rule: get_cases [of g1 b])
    case (old p)
    with g2 s1(2) show ?thesis by simp
  next
    case new
    with s1(2) have "a \<noteq> b" by auto
    with new g2 s1(2) show ?thesis by (auto simp: update_conv')
  qed
  show "wf_graph (nodes_addEdge g a b)"
    unfolding r by (rule wf_graph_link [OF s2(1) a s2(2)])
  show "node_ids (nodes_addEdge g a b) = node_ids g \<union> {a, b}"
    unfolding r using s1(3) s2(3) by (auto simp: node_ids_def)
  show "edges (nodes_addEdge g a b) = edges g \<union> {(a, b), (b, a)}"
    unfolding r edges_link [OF s2(1) a s2(2)] using s1(4) s2(4) by simp
  show "symbolTable (nodes_addEdge g a b) = symbolTable g"
    unfolding r using s1(5) s2(5) by simp
qed

lemma wf_graph_symbolTable_update [simp]: "wf_graph (g\<lparr>symbolTable := s\<rparr>) = wf_graph g"
  by (simp add: wf_graph_def)

lemma node_ids_symbolTable_update [simp]: "node_ids (g\<lparr>symbolTable := s\<rparr>) = node_ids g"
  by (simp add: node_ids_def)

lemma edges_symbolTable_update [simp]: "edges (g\<lparr>symbolTable := s\<rparr>) = edges g"
  by (simp add: edges_def neighbours_def)

lemma wf_graph_addEdge: "wf_graph g \<Longrightarrow> wf_graph (addEdge g a b)"
  by (simp add: addEdge_def nodes_addEdge_spec(1) split: prod.splits)

lemma build_from_Nil [simp]: "build_from g [] = g"
  by (simp add: build_from_def)

lemma build_from_Cons [simp]: "build_from g (e # es) = build_from (addEdge g (fst e) (snd e)) es"
  by (simp add: build_from_def)

lemma build_from_append: "build_from g (es @ es') = build_from (build_from g es) es'"
  by (simp add: build_from_def)

lemma build_snoc: "build (es @ [(a, b)]) = addEdge (build es) a b"
  by (simp add: build_def build_from_append)

lemma wf_graph_build_from: "wf_graph g \<Longrightarrow> wf_graph (build_from g es)"
  by (induction es arbitrary: g) (simp_all add: wf_graph_addEdge)

lemma wf_graph_build: "wf_graph (build es)"
  by (simp add: build_def wf_graph_build_from wf_graph_New)

lemma wf_edges_sym: 
  assumes wf: "wf_graph g" and e: "(i, j) \<in> edges g"
  shows "(j, i) \<in> edges g"
proof -
  from e obtain p q where p: "map_of (nodes g) i = Some p"
    and q: "map_of (adj (heap g ! p)) j = Some q"
    by (auto simp: edges_iff)
  from wf_ptr [OF wf p] have pl: "p < length (heap g)" and pid: "id' (heap g ! p) = i"
    by simp_all
  from wf_adj_ptr [OF wf pl q] wf_adj_sym [OF wf pl q] pid show ?thesis
    by (auto simp: edges_iff)
qed

lemma wf_edges_nodes:
  assumes wf: "wf_graph g" and e: "(i, j) \<in> edges g"
  shows "i \<in> node_ids g \<and> j \<in> node_ids g"
proof -
  from e obtain p q where p: "map_of (nodes g) i = Some p"
    and q: "map_of (adj (heap g ! p)) j = Some q"
    by (auto simp: edges_iff)
  from wf_ptr [OF wf p] have pl: "p < length (heap g)" by simp
  from wf_adj_ptr [OF wf pl q] p show ?thesis
    by (auto simp: node_ids_iff)
qed

section \<open>Symmetry of the adjacency relation\<close>

text \<open>
  C5. After any sequence of \<^verbatim>\<open>addEdge\<close> calls on a new graph the adjacency relation is
  symmetric. On node objects: if the adjacency map of node \<open>A\<close> (at address \<open>p\<close>) holds
  node \<open>B\<close> (at address \<open>q\<close>) under \<open>B\<close>'s id, then the adjacency map of \<open>B\<close> holds \<open>A\<close>
  under \<open>A\<close>'s id. On ids: the relation \<open>edges\<close> is symmetric.
\<close>

theorem adjacency_symmetric:
  "(\<forall>p q. p < length (heap (build es)) \<and> q < length (heap (build es))
          \<and> map_of (adj (heap (build es) ! p)) (id' (heap (build es) ! q)) = Some q
        \<longrightarrow> map_of (adj (heap (build es) ! q)) (id' (heap (build es) ! p)) = Some p)
   \<and> (\<forall>i j. (i, j) \<in> edges (build es) \<longrightarrow> (j, i) \<in> edges (build es))"
  using wf_adj_sym [OF wf_graph_build] wf_edges_sym [OF wf_graph_build] by blast

lemma build_ab_heap:
  "heap (build [(''a'', ''b'')]) = [\<lparr>id' = 0, adj = [(1, 1)]\<rparr>, \<lparr>id' = 1, adj = [(0, 0)]\<rparr>]"
  by code_simp

lemma build_ab_nodes: "nodes (build [(''a'', ''b'')]) = [(0, 0), (1, 1)]"
  by code_simp

theorem adjacency_symmetric_witness:
  "map_of (adj (heap (build [(''a'', ''b'')]) ! 0)) (id' (heap (build [(''a'', ''b'')]) ! 1)) = Some 1
   \<and> map_of (adj (heap (build [(''a'', ''b'')]) ! 1)) (id' (heap (build [(''a'', ''b'')]) ! 0)) = Some 0
   \<and> (0, 1) \<in> edges (build [(''a'', ''b'')])
   \<and> (1, 0) \<in> edges (build [(''a'', ''b'')])"
proof -
  let ?g = "build [(''a'', ''b'')]"
  have 1: "map_of (adj (heap ?g ! 0)) (id' (heap ?g ! 1)) = Some 1"
    by (simp add: build_ab_heap)
  have 2: "(0, 1) \<in> edges ?g"
    by (simp add: edges_def neighbours_def build_ab_heap build_ab_nodes)
  have l: "(0::nat) < length (heap ?g) \<and> (1::nat) < length (heap ?g)"
    by (simp add: build_ab_heap)
  from adjacency_symmetric [of "[(''a'', ''b'')]"] 1 2 l show ?thesis
    by blast
qed

section \<open>Specification: hop distance, eccentricity, diameter\<close>

text \<open>
  The notions the claims are stated with, for a graph with nodes \<open>V\<close> and edge relation
  \<open>E\<close>: \<open>hop_dist E u v\<close> is the length of a shortest path from \<open>u\<close> to \<open>v\<close> (the least
  number of edges of a path, when there is one); two nodes are in the same component
  when a path of edges, taken in either direction, joins them; the eccentricity of \<open>v\<close>
  is the largest distance from \<open>v\<close> to a node reachable from it; the diameter is the
  largest distance between two nodes of one component, and 0 for the graph with no
  nodes.
\<close>

definition hop_dist :: "('a \<times> 'a) set \<Rightarrow> 'a \<Rightarrow> 'a \<Rightarrow> nat" where
  "hop_dist E u v = (LEAST n. (u, v) \<in> E ^^ n)"

definition same_component :: "('a \<times> 'a) set \<Rightarrow> 'a \<Rightarrow> 'a \<Rightarrow> bool" where
  "same_component E u v = ((u, v) \<in> (E \<union> E\<inverse>)\<^sup>*)"

definition eccentricity :: "('a \<times> 'a) set \<Rightarrow> 'a \<Rightarrow> int" where
  "eccentricity E v = Max {int (hop_dist E v u) | u. (v, u) \<in> E\<^sup>*}"

definition graph_diameter :: "'a set \<Rightarrow> ('a \<times> 'a) set \<Rightarrow> int" where
  "graph_diameter V E =
     (if V = {} then 0
      else Max {int (hop_dist E u v) | u v. u \<in> V \<and> v \<in> V \<and> same_component E u v})"

lemma hop_dist_le: "(u, v) \<in> E ^^ n \<Longrightarrow> hop_dist E u v \<le> n"
  unfolding hop_dist_def by (rule Least_le)

lemma hop_dist_path: "(u, v) \<in> E\<^sup>* \<Longrightarrow> (u, v) \<in> E ^^ hop_dist E u v"
  unfolding hop_dist_def by (auto simp: rtrancl_power intro: LeastI)

lemma hop_dist_self [simp]: "hop_dist E u u = 0"
  using hop_dist_le [where u = u and v = u and E = E and n = 0] by simp

section \<open>Correctness of the breadth-first search\<close>

definition disc :: "bfsData \<Rightarrow> nodeID set" where
  "disc d = {i. parent (bfs_get d i) \<noteq> None}"

definition dep :: "bfsData \<Rightarrow> nodeID \<Rightarrow> int" where
  "dep d i = depth (bfs_get d i)"

definition qids :: "node list \<Rightarrow> addr list \<Rightarrow> nodeID list" where
  "qids h q = map (\<lambda>p. id' (h ! p)) q"

definition bfs_data_ok :: "bfsData \<Rightarrow> bool" where
  "bfs_data_ok d = (distinct (map fst d) \<and> (\<forall>e \<in> set d. parent (snd e) \<noteq> None))"

lemma qids_simps [simp]:
  "qids h [] = []" "qids h (p # q) = id' (h ! p) # qids h q"
  "qids h (q @ q') = qids h q @ qids h q'"
  by (simp_all add: qids_def)

lemma disc_update:
  "disc (AList.update i \<lparr>parent = Some n, depth = k\<rparr> d) = insert i (disc d)"
  by (auto simp: disc_def bfs_get_update)

lemma set_update_subset: "set (AList.update k v al) \<subseteq> insert (k, v) (set al)"
  by (induction al) auto

lemma bfs_data_ok_update:
  "bfs_data_ok d \<Longrightarrow> bfs_data_ok (AList.update i \<lparr>parent = Some n, depth = k\<rparr> d)"
  unfolding bfs_data_ok_def
  using set_update_subset [of i "\<lparr>parent = Some n, depth = k\<rparr>" d]
  by (auto simp: distinct_update)

lemma visit_unfold:
  "visit h x (k, m) (d, q) =
     (if k \<in> disc d then (d, q)
      else (AList.update k \<lparr>parent = Some x, depth = dep d (id' (h ! x)) + 1\<rparr> d, q @ [m]))"
  by (simp add: visit_def disc_def dep_def)

text \<open>
  What one pass over the adjacency map of the dequeued node \<open>x\<close> does: the entries not
  yet discovered are marked at the depth of \<open>x\<close> plus one and appended to the queue,
  once each; everything discovered before is left alone.
\<close>

lemma fold_visit_spec:
  assumes "id' (h ! x) \<in> disc d"
    and "\<forall>e \<in> set es. snd e < length h \<and> id' (h ! snd e) = fst e"
    and "bfs_data_ok d"
    and "fold (visit h x) es (d, q) = (d', q')"
  shows "disc d' = disc d \<union> fst ` set es
       \<and> (\<forall>i \<in> disc d. bfs_get d' i = bfs_get d i)
       \<and> (\<forall>i \<in> disc d' - disc d. dep d' i = dep d (id' (h ! x)) + 1)
       \<and> (\<exists>new. q' = q @ new \<and> distinct (qids h new)
              \<and> set (qids h new) = disc d' - disc d \<and> (\<forall>p \<in> set new. p < length h))
       \<and> bfs_data_ok d'"
  using assms
proof (induction es arbitrary: d q)
  case Nil
  then show ?case by simp
next
  case (Cons e es)
  obtain k m where e: "e = (k, m)" by (cases e)
  have p2: "\<forall>e \<in> set es. snd e < length h \<and> id' (h ! snd e) = fst e"
    using Cons.prems(2) by simp
  show ?case
  proof (cases "k \<in> disc d")
    case True
    with Cons.prems(4) e have f: "fold (visit h x) es (d, q) = (d', q')"
      by (simp add: visit_unfold)
    have eq: "disc d \<union> fst ` set (e # es) = disc d \<union> fst ` set es"
      using True e by auto
    show ?thesis
      unfolding eq by (rule Cons.IH [OF Cons.prems(1) p2 Cons.prems(3) f])
  next
    case False
    let ?b = "\<lparr>parent = Some x, depth = dep d (id' (h ! x)) + 1\<rparr>"
    let ?d1 = "AList.update k ?b d"
    from False Cons.prems(4) e have f: "fold (visit h x) es (?d1, q @ [m]) = (d', q')"
      by (simp add: visit_unfold)
    from False Cons.prems(1) have kx: "k \<noteq> id' (h ! x)" by auto
    have d1: "disc ?d1 = insert k (disc d)" by (rule disc_update)
    have x1: "id' (h ! x) \<in> disc ?d1" using Cons.prems(1) d1 by simp
    have depx: "dep ?d1 (id' (h ! x)) = dep d (id' (h ! x))"
      using kx by (simp add: dep_def bfs_get_update)
    from Cons.prems(2) e have m: "m < length h" "id' (h ! m) = k" by simp_all
    from Cons.IH [OF x1 p2 bfs_data_ok_update [OF Cons.prems(3)] f]
    have IH: "disc d' = disc ?d1 \<union> fst ` set es"
      "\<forall>i \<in> disc ?d1. bfs_get d' i = bfs_get ?d1 i"
      "\<forall>i \<in> disc d' - disc ?d1. dep d' i = dep ?d1 (id' (h ! x)) + 1"
      "\<exists>new. q' = (q @ [m]) @ new \<and> distinct (qids h new)
              \<and> set (qids h new) = disc d' - disc ?d1 \<and> (\<forall>p \<in> set new. p < length h)"
      "bfs_data_ok d'"
      by blast+
    from IH(4) obtain new where new: "q' = (q @ [m]) @ new" "distinct (qids h new)"
      "set (qids h new) = disc d' - disc ?d1" "\<forall>p \<in> set new. p < length h"
      by blast
    have c1: "disc d' = disc d \<union> fst ` set (e # es)"
      using IH(1) d1 e by auto
    have c2: "\<forall>i \<in> disc d. bfs_get d' i = bfs_get d i"
    proof
      fix i assume i: "i \<in> disc d"
      with False have "i \<noteq> k" by auto
      with IH(2) i d1 show "bfs_get d' i = bfs_get d i"
        by (simp add: bfs_get_update)
    qed
    have c3: "\<forall>i \<in> disc d' - disc d. dep d' i = dep d (id' (h ! x)) + 1"
    proof
      fix i assume i: "i \<in> disc d' - disc d"
      show "dep d' i = dep d (id' (h ! x)) + 1"
      proof (cases "i = k")
        case True
        with IH(2) d1 have "bfs_get d' i = bfs_get ?d1 k" by simp
        then show ?thesis by (simp add: dep_def bfs_get_update)
      next
        case False
        with i d1 have "i \<in> disc d' - disc ?d1" by simp
        with IH(3) depx show ?thesis by simp
      qed
    qed
    have c4: "\<exists>new'. q' = q @ new' \<and> distinct (qids h new')
              \<and> set (qids h new') = disc d' - disc d \<and> (\<forall>p \<in> set new'. p < length h)"
    proof (intro exI conjI)
      show "q' = q @ (m # new)" using new(1) by simp
      show "distinct (qids h (m # new))" using new(2,3) m(2) d1 by simp
      show "set (qids h (m # new)) = disc d' - disc d"
        using new(3) m(2) d1 c1 e False by auto
      show "\<forall>p \<in> set (m # new). p < length h" using new(4) m(1) by simp
    qed
    from c1 c2 c3 c4 IH(5) show ?thesis by blast
  qed
qed

text \<open>
  The loop invariant, for the search from the node with id \<open>s\<close>, at the head of the
  \<^verbatim>\<open>for\<close> loop: \<open>d\<close> is the BFS map, \<open>q\<close> the queue, \<open>n\<close> the node dequeued last.
\<close>

definition bfs_inv :: "Graph \<Rightarrow> nodeID \<Rightarrow> bfsData \<Rightarrow> addr list \<Rightarrow> addr \<Rightarrow> bool" where
  "bfs_inv g s d q n =
     (bfs_data_ok d
      \<and> (\<forall>p \<in> set (n # q). p < length (heap g))
      \<and> set (qids (heap g) (n # q)) \<subseteq> disc d
      \<and> distinct (qids (heap g) q)
      \<and> s \<in> disc d \<and> dep d s = 0
      \<and> (\<forall>i \<in> disc d. 0 \<le> dep d i \<and> (s, i) \<in> edges g ^^ nat (dep d i))
      \<and> (\<forall>i \<in> disc d. i \<notin> set (qids (heap g) q) \<longrightarrow>
            (\<forall>j. (i, j) \<in> edges g \<longrightarrow> j \<in> disc d \<and> dep d j \<le> dep d i + 1))
      \<and> sorted (map (dep d) (qids (heap g) (n # q)))
      \<and> (\<forall>i \<in> disc d. dep d i \<le> dep d (id' (heap g ! n)) + 1)
      \<and> (\<forall>i \<in> disc d. dep d i = dep d (id' (heap g ! n)) + 1 \<longrightarrow> i \<in> set (qids (heap g) q)))"

lemma adj_entries:
  assumes wf: "wf_graph g" and x: "x < length (heap g)"
  shows "\<forall>e \<in> set (adj (heap g ! x)). snd e < length (heap g) \<and> id' (heap g ! snd e) = fst e"
proof
  fix e assume e: "e \<in> set (adj (heap g ! x))"
  obtain k m where km: "e = (k, m)" by (cases e)
  from e km wf_adj_distinct [OF wf x] have "map_of (adj (heap g ! x)) k = Some m"
    by simp
  from wf_ptr [OF wf wf_adj_ptr [OF wf x this]] km
  show "snd e < length (heap g) \<and> id' (heap g ! snd e) = fst e" by simp
qed

lemma adj_keys:
  assumes wf: "wf_graph g" and x: "x < length (heap g)"
  shows "fst ` set (adj (heap g ! x)) = {j. (id' (heap g ! x), j) \<in> edges g}"
  using wf_reg [OF wf x] map_of_fst_iff [of _ "adj (heap g ! x)"]
  by (auto simp: edges_iff)

lemma bfs_inv_step:
  assumes wf: "wf_graph g"
    and inv: "bfs_inv g s d (x # q) n"
    and es: "set es = set (adj (heap g ! x))"
    and f: "fold (visit (heap g) x) es (d, q) = (d', q')"
  shows "bfs_inv g s d' q' x"
proof -
  let ?h = "heap g"
  let ?ix = "id' (?h ! x)"
  let ?in = "id' (?h ! n)"
  from inv have ok: "bfs_data_ok d"
    and xl: "x < length ?h" and ql: "\<forall>p \<in> set q. p < length ?h"
    and ixd: "?ix \<in> disc d" and qd: "set (qids ?h q) \<subseteq> disc d"
    and ixq: "?ix \<notin> set (qids ?h q)" and dq: "distinct (qids ?h q)"
    and s0: "s \<in> disc d" "dep d s = 0"
    and path: "\<forall>i \<in> disc d. 0 \<le> dep d i \<and> (s, i) \<in> edges g ^^ nat (dep d i)"
    and closed: "\<forall>i \<in> disc d. i \<notin> set (qids ?h (x # q)) \<longrightarrow>
            (\<forall>j. (i, j) \<in> edges g \<longrightarrow> j \<in> disc d \<and> dep d j \<le> dep d i + 1)"
    and nx: "dep d ?in \<le> dep d ?ix"
    and xq: "\<forall>i \<in> set (qids ?h q). dep d ?ix \<le> dep d i"
    and sq: "sorted (map (dep d) (qids ?h q))"
    and ub: "\<forall>i \<in> disc d. dep d i \<le> dep d ?in + 1"
    and nxt: "\<forall>i \<in> disc d. dep d i = dep d ?in + 1 \<longrightarrow> i \<in> set (qids ?h (x # q))"
    unfolding bfs_inv_def by simp_all
  have ent: "\<forall>e \<in> set es. snd e < length ?h \<and> id' (?h ! snd e) = fst e"
    using adj_entries [OF wf xl] es by simp
  have keys: "fst ` set es = {j. (?ix, j) \<in> edges g}"
    using adj_keys [OF wf xl] es by simp
  from fold_visit_spec [OF ixd ent ok f] obtain new where
    D: "disc d' = disc d \<union> fst ` set es"
    and same: "\<forall>i \<in> disc d. bfs_get d' i = bfs_get d i"
    and fresh: "\<forall>i \<in> disc d' - disc d. dep d' i = dep d ?ix + 1"
    and q': "q' = q @ new" and dnew: "distinct (qids ?h new)"
    and snew: "set (qids ?h new) = disc d' - disc d"
    and lnew: "\<forall>p \<in> set new. p < length ?h"
    and ok': "bfs_data_ok d'"
    by blast
  have dep_same: "dep d' i = dep d i" if "i \<in> disc d" for i
    using same that by (simp add: dep_def)
  have sub: "disc d \<subseteq> disc d'" using D by auto
  have dep_ub: "dep d' i \<le> dep d ?ix + 1" if "i \<in> disc d'" for i
  proof (cases "i \<in> disc d")
    case True
    with ub nx dep_same [OF True] show ?thesis by fastforce
  next
    case False
    with that fresh show ?thesis by simp
  qed
  show ?thesis
    unfolding bfs_inv_def
  proof (intro conjI)
    show "bfs_data_ok d'" by (rule ok')
    show "\<forall>p \<in> set (x # q'). p < length ?h"
      using xl ql lnew q' by auto
    show "set (qids ?h (x # q')) \<subseteq> disc d'"
      using ixd qd snew sub q' by auto
    show "distinct (qids ?h q')"
      using dq dnew snew qd q' by auto
    show "s \<in> disc d'" using s0 sub by auto
    show "dep d' s = 0" using s0 dep_same by simp
    show "\<forall>i \<in> disc d'. 0 \<le> dep d' i \<and> (s, i) \<in> edges g ^^ nat (dep d' i)"
    proof
      fix i assume i: "i \<in> disc d'"
      show "0 \<le> dep d' i \<and> (s, i) \<in> edges g ^^ nat (dep d' i)"
      proof (cases "i \<in> disc d")
        case True
        with path dep_same [OF True] show ?thesis by simp
      next
        case False
        with i fresh have di: "dep d' i = dep d ?ix + 1" by simp
        from False i D keys have e: "(?ix, i) \<in> edges g" by auto
        from path ixd have px: "0 \<le> dep d ?ix" "(s, ?ix) \<in> edges g ^^ nat (dep d ?ix)"
          by simp_all
        from px(1) have "nat (dep d ?ix + 1) = Suc (nat (dep d ?ix))" by simp
        with px e di show ?thesis by auto
      qed
    qed
    show "\<forall>i \<in> disc d'. i \<notin> set (qids ?h q') \<longrightarrow>
            (\<forall>j. (i, j) \<in> edges g \<longrightarrow> j \<in> disc d' \<and> dep d' j \<le> dep d' i + 1)"
    proof (intro ballI impI allI)
      fix i j
      assume i: "i \<in> disc d'" and iq: "i \<notin> set (qids ?h q')" and e: "(i, j) \<in> edges g"
      from i iq snew q' have id: "i \<in> disc d" by auto
      from iq q' have iq0: "i \<notin> set (qids ?h q)" by simp
      show "j \<in> disc d' \<and> dep d' j \<le> dep d' i + 1"
      proof (cases "i = ?ix")
        case True
        with e keys D have "j \<in> disc d'" by auto
        with dep_ub [OF this] True dep_same [OF ixd] show ?thesis by simp
      next
        case False
        with iq0 have "i \<notin> set (qids ?h (x # q))" by simp
        with closed id e have "j \<in> disc d" "dep d j \<le> dep d i + 1" by blast+
        with dep_same id sub show ?thesis by auto
      qed
    qed
    show "sorted (map (dep d') (qids ?h (x # q')))"
    proof -
      have 1: "map (dep d') (qids ?h q) = map (dep d) (qids ?h q)"
        using qd dep_same by (auto simp: subset_iff)
      have 2: "\<forall>i \<in> set (qids ?h new). dep d' i = dep d ?ix + 1"
        using snew fresh by simp
      have 3: "sorted (map (dep d') (qids ?h new))"
        using 2 by (induction new) (auto simp: qids_def)
      have 4: "\<forall>i \<in> set (qids ?h q). dep d i \<le> dep d ?ix + 1"
        using qd ub nx by fastforce
      have 5: "sorted (map (dep d') (qids ?h q))"
        unfolding 1 by (rule sq)
      have 6: "\<forall>i \<in> set (qids ?h q). dep d' i = dep d i"
        using qd dep_same by (auto simp: subset_iff)
      show ?thesis
        using xq 2 3 4 5 6 dep_same [OF ixd] q'
        by (auto simp: sorted_append)
    qed
    show "\<forall>i \<in> disc d'. dep d' i \<le> dep d' ?ix + 1"
      using dep_ub dep_same [OF ixd] by simp
    show "\<forall>i \<in> disc d'. dep d' i = dep d' ?ix + 1 \<longrightarrow> i \<in> set (qids ?h q')"
    proof (intro ballI impI)
      fix i assume i: "i \<in> disc d'" and di: "dep d' i = dep d' ?ix + 1"
      show "i \<in> set (qids ?h q')"
      proof (cases "i \<in> disc d")
        case True
        with di dep_same ixd have eq: "dep d i = dep d ?ix + 1" by simp
        with ub True nx have "dep d i = dep d ?in + 1" by fastforce
        with nxt True have "i \<in> set (qids ?h (x # q))" by simp
        moreover from eq have "i \<noteq> ?ix" by auto
        ultimately show ?thesis using q' by simp
      next
        case False
        with i snew q' show ?thesis by simp
      qed
    qed
  qed
qed

lemma bfs_loop_inv:
  assumes wf: "wf_graph g"
  shows "range_ok ord \<Longrightarrow> bfs_inv g s d q n \<Longrightarrow>
         bfs_loop ord k (heap g) d q n = (d', l) \<Longrightarrow> bfs_inv g s d' [] l"
proof (induction ord k "heap g" d q n rule: bfs_loop.induct)
  case (1 ord k d n)
  then show ?case by simp
next
  case (2 ord k d x q n)
  obtain d1 q1 where f: "fold (visit (heap g) x) (ord k (adj (heap g ! x))) (d, q) = (d1, q1)"
    by (cases "fold (visit (heap g) x) (ord k (adj (heap g ! x))) (d, q)")
  have "set (ord k (adj (heap g ! x))) = set (adj (heap g ! x))"
    using "2.prems"(1) by (rule range_ok_set)
  from bfs_inv_step [OF wf "2.prems"(2) this f] have inv1: "bfs_inv g s d1 q1 x" .
  from "2.prems"(3) f have "bfs_loop ord (Suc k) (heap g) d1 q1 x = (d', l)" by simp
  from "2.hyps" [OF f [symmetric] "2.prems"(1) inv1 this] show ?case .
qed

lemma bfs_inv_init:
  assumes wf: "wf_graph g" and n: "map_of (nodes g) s = Some n"
  shows "bfs_inv g s (AList.update (id' (heap g ! n)) \<lparr>parent = Some n, depth = 0\<rparr> []) [n] n"
proof -
  from wf_ptr [OF wf n] have nl: "n < length (heap g)" and ni: "id' (heap g ! n) = s"
    by simp_all
  have d: "disc [(s, \<lparr>parent = Some n, depth = 0\<rparr>)] = {s}"
    by (auto simp: disc_def bfs_get_def)
  have dp: "dep [(s, \<lparr>parent = Some n, depth = 0\<rparr>)] s = 0"
    by (simp add: dep_def bfs_get_def)
  show ?thesis
    unfolding bfs_inv_def using nl ni d dp
    by (simp add: bfs_data_ok_def)
qed

text \<open>What the invariant says once the queue is empty.\<close>

lemma bfs_final_closed:
  assumes inv: "bfs_inv g s d [] l" and p: "(s, v) \<in> edges g ^^ m"
  shows "v \<in> disc d \<and> dep d v \<le> int m"
  using p
proof (induction m arbitrary: v)
  case 0
  with inv show ?case by (simp add: bfs_inv_def)
next
  case (Suc m)
  then obtain w where w: "(s, w) \<in> edges g ^^ m" and e: "(w, v) \<in> edges g" by auto
  from Suc.IH [OF w] have wd: "w \<in> disc d" "dep d w \<le> int m" by simp_all
  from inv wd(1) e have "v \<in> disc d \<and> dep d v \<le> dep d w + 1"
    unfolding bfs_inv_def by simp
  with wd(2) show ?case by simp
qed

lemma bfs_final_disc:
  assumes inv: "bfs_inv g s d [] l"
  shows "disc d = {v. (s, v) \<in> (edges g)\<^sup>*}"
proof -
  have "v \<in> disc d \<Longrightarrow> (s, v) \<in> (edges g)\<^sup>*" for v
    using inv unfolding bfs_inv_def by (auto simp: rtrancl_power)
  moreover have "(s, v) \<in> (edges g)\<^sup>* \<Longrightarrow> v \<in> disc d" for v
    using bfs_final_closed [OF inv] by (auto simp: rtrancl_power)
  ultimately show ?thesis by auto
qed

lemma bfs_final_dep:
  assumes inv: "bfs_inv g s d [] l" and v: "v \<in> disc d"
  shows "dep d v = int (hop_dist (edges g) s v)"
proof -
  from inv v have nn: "0 \<le> dep d v" and p: "(s, v) \<in> edges g ^^ nat (dep d v)"
    unfolding bfs_inv_def by simp_all
  from hop_dist_le [OF p] nn have "int (hop_dist (edges g) s v) \<le> dep d v" by simp
  moreover from v bfs_final_disc [OF inv] have "(s, v) \<in> (edges g)\<^sup>*" by simp
  from bfs_final_closed [OF inv hop_dist_path [OF this]]
  have "dep d v \<le> int (hop_dist (edges g) s v)" by simp
  ultimately show ?thesis by simp
qed

lemma bfs_final_max:
  assumes inv: "bfs_inv g s d [] l"
  shows "id' (heap g ! l) \<in> disc d \<and> (\<forall>i \<in> disc d. dep d i \<le> dep d (id' (heap g ! l)))"
proof -
  from inv have 1: "id' (heap g ! l) \<in> disc d"
    and 2: "\<forall>i \<in> disc d. dep d i \<le> dep d (id' (heap g ! l)) + 1"
    and 3: "\<forall>i \<in> disc d. dep d i \<noteq> dep d (id' (heap g ! l)) + 1"
    unfolding bfs_inv_def by simp_all
  from 2 3 have "\<forall>i \<in> disc d. dep d i \<le> dep d (id' (heap g ! l))" by fastforce
  with 1 show ?thesis by simp
qed

lemma bfs_final_eccentricity:
  assumes inv: "bfs_inv g s d [] l"
  shows "dep d (id' (heap g ! l)) = eccentricity (edges g) s"
proof -
  let ?S = "{int (hop_dist (edges g) s u) | u. (s, u) \<in> (edges g)\<^sup>*}"
  have S: "?S = dep d ` disc d"
    using bfs_final_disc [OF inv] bfs_final_dep [OF inv] by (auto simp: image_iff)
  have "Max (dep d ` disc d) = dep d (id' (heap g ! l))"
    using bfs_final_max [OF inv] by (intro Max_eqI) auto
  then show ?thesis
    unfolding eccentricity_def S by simp
qed

lemma bfs_data_ok_disc: "bfs_data_ok d \<Longrightarrow> disc d = fst ` set d"
proof -
  assume ok: "bfs_data_ok d"
  have "i \<in> disc d \<longleftrightarrow> i \<in> fst ` set d" for i
  proof (cases "map_of d i")
    case None
    then have "i \<notin> disc d" by (simp add: disc_def bfs_get_def)
    moreover from None have "i \<notin> fst ` set d" by (simp add: map_of_eq_None_iff)
    ultimately show ?thesis by simp
  next
    case (Some b)
    from map_of_SomeD [OF Some] have m: "(i, b) \<in> set d" .
    with ok have "parent b \<noteq> None" by (auto simp: bfs_data_ok_def)
    with Some m show ?thesis
      by (force simp: disc_def bfs_get_def)
  qed
  then show ?thesis by auto
qed

lemma bfs_data_ok_depths: "bfs_data_ok d \<Longrightarrow> dep d ` disc d = (\<lambda>e. depth (snd e)) ` set d"
proof -
  assume ok: "bfs_data_ok d"
  have "dep d (fst e) = depth (snd e)" if "e \<in> set d" for e
  proof -
    from ok that have "map_of d (fst e) = Some (snd e)"
      by (simp add: bfs_data_ok_def)
    then show ?thesis by (simp add: dep_def bfs_get_def)
  qed
  then have "(\<lambda>e. dep d (fst e)) ` set d = (\<lambda>e. depth (snd e)) ` set d"
    by (intro image_cong) simp_all
  then show ?thesis
    unfolding bfs_data_ok_disc [OF ok] by (simp add: image_image)
qed

text \<open>
  The search from a node of the graph: the value returned is the depth recorded for the
  node dequeued last, the largest depth recorded at all, and the eccentricity of the
  start node.
\<close>

lemma longestShortestPath_unfold:
  assumes n: "map_of (nodes g) s = Some n"
  shows "longestShortestPath ord g s =
     (case bfs_loop ord 0 (heap g)
             (AList.update (id' (heap g ! n)) \<lparr>parent = Some n, depth = 0\<rparr> []) [n] n of
        (d, l) \<Rightarrow> (depth (bfs_get d (id' (heap g ! l))), g))"
  using n by (simp add: longestShortestPath_def get_def)

lemma longestShortestPath_correct:
  assumes wf: "wf_graph g" and ord: "range_ok ord" and s: "s \<in> node_ids g"
  shows "fst (longestShortestPath ord g s) = eccentricity (edges g) s"
proof -
  from s obtain n where n: "map_of (nodes g) s = Some n"
    by (auto simp: node_ids_iff)
  obtain d l where r: "bfs_loop ord 0 (heap g)
      (AList.update (id' (heap g ! n)) \<lparr>parent = Some n, depth = 0\<rparr> []) [n] n = (d, l)"
    by (cases "bfs_loop ord 0 (heap g)
      (AList.update (id' (heap g ! n)) \<lparr>parent = Some n, depth = 0\<rparr> []) [n] n")
  from bfs_loop_inv [OF wf ord bfs_inv_init [OF wf n] r] have "bfs_inv g s d [] l" .
  from bfs_final_eccentricity [OF this] show ?thesis
    unfolding longestShortestPath_unfold [OF n] r by (simp add: dep_def)
qed

section \<open>Correctness of the diameter\<close>

lemma eccentricity_props:
  assumes fin: "finite V" and sub: "E \<subseteq> V \<times> V" and u: "u \<in> V"
  shows "0 \<le> eccentricity E u"
    and "\<exists>v. v \<in> V \<and> (u, v) \<in> E\<^sup>* \<and> eccentricity E u = int (hop_dist E u v)"
    and "\<And>v. (u, v) \<in> E\<^sup>* \<Longrightarrow> int (hop_dist E u v) \<le> eccentricity E u"
proof -
  let ?S = "{int (hop_dist E u v) | v. (u, v) \<in> E\<^sup>*}"
  have reach: "v \<in> V" if "(u, v) \<in> E\<^sup>*" for v
    using that u sub by (induction rule: rtrancl_induct) auto
  have "?S \<subseteq> (\<lambda>v. int (hop_dist E u v)) ` V"
    using reach by auto
  then have finS: "finite ?S"
    by (rule finite_subset) (simp add: fin)
  have 0: "0 \<in> ?S"
    by (rule CollectI, rule exI [of _ u]) simp
  from Max_ge [OF finS 0] show "0 \<le> eccentricity E u"
    by (simp add: eccentricity_def)
  from 0 have "?S \<noteq> {}" by blast
  from Max_in [OF finS this] reach
  show "\<exists>v. v \<in> V \<and> (u, v) \<in> E\<^sup>* \<and> eccentricity E u = int (hop_dist E u v)"
    unfolding eccentricity_def by auto
  show "int (hop_dist E u v) \<le> eccentricity E u" if "(u, v) \<in> E\<^sup>*" for v
    unfolding eccentricity_def using that by (intro Max_ge [OF finS]) auto
qed

lemma graph_diameter_eccentricity:
  assumes fin: "finite V" and sub: "E \<subseteq> V \<times> V" and sym: "sym E"
  shows "graph_diameter V E = Max (insert 0 (eccentricity E ` V))"
proof (cases "V = {}")
  case True
  then show ?thesis by (simp add: graph_diameter_def)
next
  case False
  let ?S = "{int (hop_dist E u v) | u v. u \<in> V \<and> v \<in> V \<and> same_component E u v}"
  let ?M = "Max (insert 0 (eccentricity E ` V))"
  have comp: "same_component E u v \<longleftrightarrow> (u, v) \<in> E\<^sup>*" for u v
  proof -
    from sym have "E\<inverse> = E" by (simp add: sym_conv_converse_eq)
    then show ?thesis by (simp add: same_component_def)
  qed
  have finE: "finite (insert 0 (eccentricity E ` V))" using fin by simp
  have "?S \<subseteq> (\<lambda>(u, v). int (hop_dist E u v)) ` (V \<times> V)" by auto
  then have finS: "finite ?S"
    using fin by (auto intro: finite_surj [of "V \<times> V"])
  have ub: "y \<le> ?M" if "y \<in> ?S" for y
  proof -
    from that obtain u v where y: "y = int (hop_dist E u v)" and u: "u \<in> V"
      and r: "(u, v) \<in> E\<^sup>*"
      using comp by auto
    from eccentricity_props(3) [OF fin sub u r] y have "y \<le> eccentricity E u" by simp
    also have "\<dots> \<le> ?M" using u by (intro Max_ge [OF finE]) simp
    finally show ?thesis .
  qed
  have mem: "?M \<in> ?S"
  proof -
    have nonneg: "\<forall>x \<in> eccentricity E ` V. 0 \<le> x"
      using eccentricity_props(1) [OF fin sub] by auto
    from False have ne: "eccentricity E ` V \<noteq> {}" by simp
    have "?M = Max (eccentricity E ` V)"
    proof -
      have "0 \<le> Max (eccentricity E ` V)"
        using nonneg ne fin by (auto simp: Max_ge_iff)
      then show ?thesis using ne fin by (simp add: max_def)
    qed
    moreover have "Max (eccentricity E ` V) \<in> eccentricity E ` V"
      using ne fin by (intro Max_in) simp_all
    ultimately obtain u where u: "u \<in> V" and M: "?M = eccentricity E u" by auto
    from eccentricity_props(2) [OF fin sub u] obtain v where
      "v \<in> V" "(u, v) \<in> E\<^sup>*" "eccentricity E u = int (hop_dist E u v)" by blast
    with u M comp show ?thesis by auto
  qed
  have "Max ?S = ?M"
    using finS ub mem by (intro Max_eqI) auto
  with False show ?thesis by (simp add: graph_diameter_def)
qed

lemma diameter_loop_value:
  assumes wf: "wf_graph g" and ok: "sched_ok sched"
  shows "fst ` set es \<subseteq> node_ids g \<Longrightarrow>
         fst (diameter_loop sched j es diam g)
         = Max (insert diam (eccentricity (edges g) ` fst ` set es))"
proof (induction es arbitrary: j diam)
  case Nil
  then show ?case by simp
next
  case (Cons e es)
  from Cons.prems have e: "fst e \<in> node_ids g" and es: "fst ` set es \<subseteq> node_ids g"
    by simp_all
  obtain df g' where l: "longestShortestPath (sched (Suc j)) g (fst e) = (df, g')"
    by (cases "longestShortestPath (sched (Suc j)) g (fst e)")
  from ok have r: "range_ok (sched (Suc j))" by (simp add: sched_ok_def)
  from longestShortestPath_correct [OF wf r e] l
  have df: "df = eccentricity (edges g) (fst e)" by simp
  from longestShortestPath_frame [of "fst e" g "sched (Suc j)"] e l
  have g': "g' = g" by (simp add: node_ids_def)
  have "fst (diameter_loop sched j (e # es) diam g)
        = fst (diameter_loop sched (Suc j) es (if df > diam then df else diam) g)"
    using l g' by simp
  also have "\<dots> = Max (insert (if df > diam then df else diam)
                        (eccentricity (edges g) ` fst ` set es))"
    by (rule Cons.IH [OF es])
  also have "\<dots> = Max (insert diam (eccentricity (edges g) ` fst ` set (e # es)))"
  proof -
    have fin: "finite (eccentricity (edges g) ` fst ` set es)" by simp
    have "(if df > diam then df else diam) = max diam df" by (simp add: max_def)
    then show ?thesis
      unfolding df
      by (cases "eccentricity (edges g) ` fst ` set es = {}")
         (simp_all add: Max_insert [OF fin] max.assoc)
  qed
  finally show ?case .
qed

lemma wf_edges_sub: "wf_graph g \<Longrightarrow> edges g \<subseteq> node_ids g \<times> node_ids g"
  using wf_edges_nodes by auto

lemma wf_edges_symrel: "wf_graph g \<Longrightarrow> sym (edges g)"
  using wf_edges_sym by (auto intro: symI)

lemma diameter_correct:
  assumes wf: "wf_graph g" and ok: "sched_ok sched"
  shows "fst (diameter sched g) = graph_diameter (node_ids g) (edges g)"
proof -
  from ok have "range_ok (sched 0)" by (simp add: sched_ok_def)
  then have s: "set (sched 0 0 (nodes g)) = set (nodes g)" by (rule range_ok_set)
  then have "fst ` set (sched 0 0 (nodes g)) \<subseteq> node_ids g" by (simp add: node_ids_def)
  from diameter_loop_value [OF wf ok this]
  have "fst (diameter sched g) = Max (insert 0 (eccentricity (edges g) ` node_ids g))"
    by (simp add: diameter_def s node_ids_def)
  also have "\<dots> = graph_diameter (node_ids g) (edges g)"
    by (rule graph_diameter_eccentricity [symmetric])
       (simp_all add: node_ids_def wf_edges_sub [OF wf, unfolded node_ids_def] wf_edges_symrel [OF wf])
  finally show ?thesis .
qed

lemma diameter_order_independent:
  assumes "wf_graph g" "sched_ok sched" "sched_ok sched'"
  shows "fst (diameter sched g) = fst (diameter sched' g)"
  using assms by (simp add: diameter_correct)

section \<open>The trace of the search: what is dequeued, visited and enqueued\<close>

text \<open>
  A ghost copy of the loop of \<^verbatim>\<open>longestShortestPath\<close> that records, for every iteration,
  the node dequeued, the adjacency entries its \<^verbatim>\<open>range\<close> statement visited (in order)
  and the nodes it pushed on the queue. It has the recursion of \<open>bfs_loop\<close> and
  returns the record instead of the result.
\<close>

function bfs_steps ::
  "order \<Rightarrow> nat \<Rightarrow> node list \<Rightarrow> bfsData \<Rightarrow> addr list
   \<Rightarrow> (addr \<times> (nodeID \<times> addr) list \<times> addr list) list" where
  "bfs_steps ord k h d [] = []"
| "bfs_steps ord k h d (x # q) =
     (case fold (visit h x) (ord k (adj (h ! x))) (d, q) of
        (d', q') \<Rightarrow>
          (x, ord k (adj (h ! x)), drop (length q) q') # bfs_steps ord (Suc k) h d' q')"
  by pat_completeness auto
termination
proof (relation "measure (\<lambda>(ord, k, h, d, q). 2 * undiscovered d + length q)", goal_cases)
  case 1
  show ?case by simp
next
  case (2 ord k h d x q d' q')
  then have "fold (visit h x) (ord k (adj (h ! x))) (d, q) = (d', q')" by simp
  from fold_visit_measure [OF this] show ?case by simp
qed

definition dequeued :: "(addr \<times> (nodeID \<times> addr) list \<times> addr list) list \<Rightarrow> addr list" where
  "dequeued steps = map fst steps"

definition enqueued :: "(addr \<times> (nodeID \<times> addr) list \<times> addr list) list \<Rightarrow> addr list" where
  "enqueued steps = concat (map (\<lambda>s. snd (snd s)) steps)"

lemma bfs_loop_last:
  "snd (bfs_loop ord k h d q n) = last (n # dequeued (bfs_steps ord k h d q))"
proof (induction ord k h d q n rule: bfs_loop.induct)
  case (1 ord k h d n)
  then show ?case by (simp add: dequeued_def)
next
  case (2 ord k h d x q n)
  obtain d1 q1 where f: "fold (visit h x) (ord k (adj (h ! x))) (d, q) = (d1, q1)"
    by (cases "fold (visit h x) (ord k (adj (h ! x))) (d, q)")
  from "2.IH" [OF f [symmetric]] f show ?case
    by (simp add: dequeued_def)
qed

lemma fold_visit_extends:
  "fold (visit h x) es (d, q) = (d', q') \<Longrightarrow> take (length q) q' = q"
proof (induction es arbitrary: d q)
  case Nil
  then show ?case by simp
next
  case (Cons e es)
  obtain d1 q1 where v: "visit h x e (d, q) = (d1, q1)" by (cases "visit h x e (d, q)")
  then have "q1 = q \<or> (\<exists>m. q1 = q @ [m])"
    by (auto simp: visit_def split: prod.splits if_splits)
  moreover from Cons.prems v have "fold (visit h x) es (d1, q1) = (d', q')" by simp
  from Cons.IH [OF this] have "take (length q1) q' = q1" .
  ultimately show ?case
    by (metis append_eq_conv_conj append_assoc append_take_drop_id)
qed

text \<open>First in, first out: the queue followed by everything pushed later is what gets dequeued.\<close>

lemma bfs_steps_fifo:
  "dequeued (bfs_steps ord k h d q) = q @ enqueued (bfs_steps ord k h d q)"
proof (induction ord k h d q rule: bfs_steps.induct)
  case (1 ord k h d)
  then show ?case by (simp add: dequeued_def enqueued_def)
next
  case (2 ord k h d x q)
  obtain d1 q1 where f: "fold (visit h x) (ord k (adj (h ! x))) (d, q) = (d1, q1)"
    by (cases "fold (visit h x) (ord k (adj (h ! x))) (d, q)")
  from fold_visit_extends [OF f] have "q1 = q @ drop (length q) q1"
    by (metis append_take_drop_id)
  with "2.IH" [OF f [symmetric]] f show ?case
    by (simp add: dequeued_def enqueued_def)
qed

lemma bfs_steps_distinct:
  assumes wf: "wf_graph g"
  shows "range_ok ord \<Longrightarrow> bfs_inv g s d q n \<Longrightarrow>
     distinct (qids (heap g) (dequeued (bfs_steps ord k (heap g) d q)))
     \<and> set (qids (heap g) (enqueued (bfs_steps ord k (heap g) d q))) \<inter> disc d = {}
     \<and> (\<forall>p \<in> set (dequeued (bfs_steps ord k (heap g) d q)). p < length (heap g))
     \<and> (\<forall>st \<in> set (bfs_steps ord k (heap g) d q).
           mset (fst (snd st)) = mset (adj (heap g ! fst st)) \<and> distinct (map fst (fst (snd st))))"
proof (induction ord k "heap g" d q arbitrary: n rule: bfs_steps.induct)
  case (1 ord k d)
  then show ?case by (simp add: dequeued_def enqueued_def)
next
  case (2 ord k d x q)
  let ?h = "heap g"
  let ?es = "ord k (adj (?h ! x))"
  obtain d1 q1 where f: "fold (visit ?h x) ?es (d, q) = (d1, q1)"
    by (cases "fold (visit ?h x) ?es (d, q)")
  have ms: "mset ?es = mset (adj (?h ! x))"
    using "2.prems"(1) by (simp add: range_ok_def)
  then have es: "set ?es = set (adj (?h ! x))" by (rule mset_eq_setD)
  from bfs_inv_step [OF wf "2.prems"(2) es f] have inv1: "bfs_inv g s d1 q1 x" .
  note IH = "2.hyps" [OF f [symmetric] "2.prems"(1) inv1]
  let ?st = "bfs_steps ord (Suc k) ?h d1 q1"
  from "2.prems"(2) have ok: "bfs_data_ok d" and xl: "x < length ?h"
    and ixd: "id' (?h ! x) \<in> disc d" and ixq: "id' (?h ! x) \<notin> set (qids ?h q)"
    unfolding bfs_inv_def by simp_all
  have ent: "\<forall>e \<in> set ?es. snd e < length ?h \<and> id' (?h ! snd e) = fst e"
    using adj_entries [OF wf xl] es by simp
  from fold_visit_spec [OF ixd ent ok f] obtain new where
    D: "disc d1 = disc d \<union> fst ` set ?es"
    and q1: "q1 = q @ new" and snew: "set (qids ?h new) = disc d1 - disc d"
    by blast
  have dq: "dequeued (bfs_steps ord k ?h d (x # q)) = x # dequeued ?st"
    using f by (simp add: dequeued_def)
  have eq: "enqueued (bfs_steps ord k ?h d (x # q)) = new @ enqueued ?st"
    using f q1 by (simp add: enqueued_def)
  have fifo: "dequeued ?st = q @ new @ enqueued ?st"
    using bfs_steps_fifo [of ord "Suc k" ?h d1 q1] q1 by simp
  have c1: "distinct (qids ?h (dequeued (bfs_steps ord k ?h d (x # q))))"
  proof -
    have "id' (?h ! x) \<notin> set (qids ?h (dequeued ?st))"
      unfolding fifo using ixq ixd snew IH D by auto
    with IH show ?thesis unfolding dq by simp
  qed
  have c2: "set (qids ?h (enqueued (bfs_steps ord k ?h d (x # q)))) \<inter> disc d = {}"
    unfolding eq using snew IH D by auto
  have c3: "\<forall>p \<in> set (dequeued (bfs_steps ord k ?h d (x # q))). p < length ?h"
    unfolding dq using xl IH by simp
  have c4: "\<forall>st \<in> set (bfs_steps ord k ?h d (x # q)).
           mset (fst (snd st)) = mset (adj (?h ! fst st)) \<and> distinct (map fst (fst (snd st)))"
  proof -
    have "mset (map fst ?es) = mset (map fst (adj (?h ! x)))"
      using ms by (metis mset_map)
    then have "distinct (map fst ?es)"
      using wf_adj_distinct [OF wf xl] by (metis mset_eq_imp_distinct_iff)
    with ms IH f show ?thesis by simp
  qed
  from c1 c2 c3 c4 show ?case by blast
qed

text \<open>
  The search that \<^verbatim>\<open>longestShortestPath\<close> runs from the node at address \<open>n\<close>: its result
  (the final BFS map and the node dequeued last) and its trace.
\<close>

definition search_result :: "order \<Rightarrow> Graph \<Rightarrow> addr \<Rightarrow> bfsData \<times> addr" where
  "search_result ord g n =
     bfs_loop ord 0 (heap g)
       (AList.update (id' (heap g ! n)) \<lparr>parent = Some n, depth = 0\<rparr> []) [n] n"

definition search_trace ::
  "order \<Rightarrow> Graph \<Rightarrow> addr \<Rightarrow> (addr \<times> (nodeID \<times> addr) list \<times> addr list) list" where
  "search_trace ord g n =
     bfs_steps ord 0 (heap g)
       (AList.update (id' (heap g ! n)) \<lparr>parent = Some n, depth = 0\<rparr> []) [n]"

lemma longestShortestPath_search:
  assumes "map_of (nodes g) s = Some n"
  shows "fst (longestShortestPath ord g s) =
         depth (bfs_get (fst (search_result ord g n)) (id' (heap g ! snd (search_result ord g n))))"
  unfolding longestShortestPath_unfold [OF assms] search_result_def
  by (simp split: prod.splits)

lemma search_result_inv:
  assumes wf: "wf_graph g" and ord: "range_ok ord" and n: "map_of (nodes g) s = Some n"
  shows "bfs_inv g s (fst (search_result ord g n)) [] (snd (search_result ord g n))"
  by (rule bfs_loop_inv [OF wf ord bfs_inv_init [OF wf n]]) (simp add: search_result_def)

lemma search_result_last:
  "snd (search_result ord g n) = last (dequeued (search_trace ord g n))"
proof -
  have "dequeued (search_trace ord g n) \<noteq> []"
    by (simp add: search_trace_def dequeued_def split: prod.splits)
  then show ?thesis
    unfolding search_result_def search_trace_def bfs_loop_last by simp
qed

lemma search_max_depth:
  assumes wf: "wf_graph g" and ord: "range_ok ord" and n: "map_of (nodes g) s = Some n"
  shows "fst (longestShortestPath ord g s)
         = Max ((\<lambda>e. depth (snd e)) ` set (fst (search_result ord g n)))"
proof -
  let ?d = "fst (search_result ord g n)"
  let ?l = "snd (search_result ord g n)"
  note inv = search_result_inv [OF wf ord n]
  from inv have ok: "bfs_data_ok ?d" by (simp add: bfs_inv_def)
  have "Max (dep ?d ` disc ?d) = dep ?d (id' (heap g ! ?l))"
    using bfs_final_max [OF inv] by (intro Max_eqI) auto
  then show ?thesis
    unfolding longestShortestPath_search [OF n] bfs_data_ok_depths [OF ok, symmetric]
    by (simp add: dep_def)
qed

lemma search_trace_props:
  assumes wf: "wf_graph g" and ord: "range_ok ord" and n: "map_of (nodes g) s = Some n"
  shows "distinct (dequeued (search_trace ord g n))"
    and "dequeued (search_trace ord g n) = n # enqueued (search_trace ord g n)"
    and "length (dequeued (search_trace ord g n)) \<le> length (nodes g)"
    and "\<forall>st \<in> set (search_trace ord g n).
           mset (fst (snd st)) = mset (adj (heap g ! fst st)) \<and> distinct (map fst (fst (snd st)))"
proof -
  let ?tr = "search_trace ord g n"
  note P = bfs_steps_distinct [OF wf ord bfs_inv_init [OF wf n], of 0, folded search_trace_def]
  from P have d: "distinct (qids (heap g) (dequeued ?tr))" by blast
  then show "distinct (dequeued ?tr)"
    by (simp add: qids_def distinct_map)
  show "dequeued ?tr = n # enqueued ?tr"
    unfolding search_trace_def using bfs_steps_fifo [of ord 0 "heap g" _ "[n]"] by simp
  from P have valid: "\<forall>p \<in> set (dequeued ?tr). p < length (heap g)" by blast
  have "set (qids (heap g) (dequeued ?tr)) \<subseteq> node_ids g"
    using valid wf_reg [OF wf] by (auto simp: qids_def node_ids_iff)
  then have "card (set (qids (heap g) (dequeued ?tr))) \<le> card (node_ids g)"
    by (intro card_mono) (simp_all add: node_ids_def)
  also have "card (set (qids (heap g) (dequeued ?tr))) = length (dequeued ?tr)"
    using distinct_card [OF d] by (simp add: qids_def)
  also have "card (node_ids g) \<le> length (nodes g)"
    unfolding node_ids_def by (metis card_image_le card_length le_trans List.finite_set)
  finally show "length (dequeued ?tr) \<le> length (nodes g)" .
  from P show "\<forall>st \<in> set ?tr.
           mset (fst (snd st)) = mset (adj (heap g ! fst st)) \<and> distinct (map fst (fst (snd st)))"
    by blast
qed

section \<open>The claims about the search and the diameter\<close>

text \<open>
  C1. For every graph built by a sequence of \<^verbatim>\<open>addEdge\<close> calls and every order the
  runtime picks in the \<^verbatim>\<open>range\<close> statements, \<^verbatim>\<open>diameter()\<close> returns the maximum, over
  the pairs of nodes of one connected component, of their shortest-path distance in
  hops (\<open>graph_diameter\<close> of the graph the node objects form: its nodes are the keys of
  \<open>nodes\<close>, its edges the entries of the adjacency maps); for the graph with no nodes it
  returns 0.
\<close>

theorem diameter_is_longest_shortest_path:
  assumes "sched_ok sched"
  shows "fst (diameter sched (build es))
           = graph_diameter (node_ids (build es)) (edges (build es))
       \<and> fst (diameter sched (build [])) = 0"
proof -
  have "node_ids (build []) = {}"
    by (simp add: build_def New_def node_ids_def)
  then have "graph_diameter (node_ids (build [])) (edges (build [])) = 0"
    by (simp add: graph_diameter_def)
  with diameter_correct [OF wf_graph_build assms] show ?thesis by simp
qed

lemma eval_path3_reversed:
  "fst (diameter (\<lambda>j. reversed) (build [(''a'', ''b''), (''b'', ''c'')])) = 2"
  by code_simp

lemma sched_ok_reversed: "sched_ok (\<lambda>j. reversed)"
  by (simp add: sched_ok_def range_ok_reversed)

theorem diameter_is_longest_shortest_path_witness:
  "sched_ok (\<lambda>j. reversed)
   \<and> fst (diameter (\<lambda>j. reversed) (build [(''a'', ''b''), (''b'', ''c'')])) = 2
   \<and> graph_diameter (node_ids (build [(''a'', ''b''), (''b'', ''c'')]))
        (edges (build [(''a'', ''b''), (''b'', ''c'')])) = 2
   \<and> fst (diameter (\<lambda>j. reversed) (build [])) = 0"
  using diameter_is_longest_shortest_path [OF sched_ok_reversed, of "[(''a'', ''b''), (''b'', ''c'')]"]
    eval_path3_reversed sched_ok_reversed
  by simp

text \<open>
  C2. For every node \<open>v\<close> of a graph built by \<^verbatim>\<open>addEdge\<close> calls (\<open>n\<close> is its node object)
  and every order of the \<^verbatim>\<open>range\<close> statements, \<^verbatim>\<open>longestShortestPath(v)\<close> returns the depth
  recorded for the node dequeued last; that node is the last entry of the trace of
  dequeued nodes; the value is the largest depth recorded in the BFS map; and it is the
  eccentricity of \<open>v\<close>, the largest hop distance from \<open>v\<close> to a node reachable from it.
\<close>

theorem longestShortestPath_is_eccentricity:
  assumes "range_ok ord" and "map_of (nodes (build es)) v = Some n"
  shows "fst (longestShortestPath ord (build es) v)
           = depth (bfs_get (fst (search_result ord (build es) n))
                      (id' (heap (build es) ! snd (search_result ord (build es) n))))
       \<and> snd (search_result ord (build es) n) = last (dequeued (search_trace ord (build es) n))
       \<and> fst (longestShortestPath ord (build es) v)
           = Max ((\<lambda>e. depth (snd e)) ` set (fst (search_result ord (build es) n)))
       \<and> fst (longestShortestPath ord (build es) v) = eccentricity (edges (build es)) v"
proof -
  from assms(2) have "v \<in> node_ids (build es)" by (auto simp: node_ids_iff)
  from longestShortestPath_correct [OF wf_graph_build assms(1) this]
    longestShortestPath_search [OF assms(2)] search_result_last
    search_max_depth [OF wf_graph_build assms]
  show ?thesis by simp
qed

lemma eval_path3_node:
  "map_of (nodes (build [(''a'', ''b''), (''b'', ''c'')])) 0 = Some 0"
  by code_simp

lemma eval_path3_search:
  "fst (longestShortestPath reversed (build [(''a'', ''b''), (''b'', ''c'')]) 0) = 2"
  by code_simp

lemma eval_path3_last:
  "snd (search_result reversed (build [(''a'', ''b''), (''b'', ''c'')]) 0) = 2"
  by code_simp

theorem longestShortestPath_is_eccentricity_witness:
  "range_ok reversed
   \<and> map_of (nodes (build [(''a'', ''b''), (''b'', ''c'')])) 0 = Some 0
   \<and> fst (longestShortestPath reversed (build [(''a'', ''b''), (''b'', ''c'')]) 0) = 2
   \<and> last (dequeued (search_trace reversed (build [(''a'', ''b''), (''b'', ''c'')]) 0)) = 2
   \<and> Max ((\<lambda>e. depth (snd e)) `
         set (fst (search_result reversed (build [(''a'', ''b''), (''b'', ''c'')]) 0))) = 2
   \<and> eccentricity (edges (build [(''a'', ''b''), (''b'', ''c'')])) 0 = 2"
  using longestShortestPath_is_eccentricity [OF range_ok_reversed eval_path3_node]
    eval_path3_search eval_path3_last range_ok_reversed eval_path3_node
  by simp

lemma eval_scenarios:
  "fst (diameter (\<lambda>j. in_order) (build [])) = 0"
  "fst (diameter (\<lambda>j. in_order) (build [(''a'', ''b'')])) = 1"
  "fst (diameter (\<lambda>j. in_order) (build [(''a'', ''b''), (''b'', ''c'')])) = 2"
  "fst (diameter (\<lambda>j. in_order) (build [(''a'', ''b''), (''b'', ''c''), (''c'', ''d'')])) = 3"
  "fst (diameter (\<lambda>j. in_order) (build [(''a'', ''b''), (''b'', ''c''), (''a'', ''c'')])) = 1"
  "fst (diameter (\<lambda>j. in_order)
     (build [(''a'', ''b''), (''b'', ''c''), (''c'', ''d''), (''a'', ''d'')])) = 2"
  "fst (diameter (\<lambda>j. in_order)
     (build [(''a'', ''b''), (''b'', ''c''), (''c'', ''a''),
             (''c'', ''d''), (''d'', ''e''), (''e'', ''c'')])) = 2"
  by code_simp+

text \<open>
  C3. The seven scenarios of the test file: a fresh graph, the listed edges inserted in
  the listed order, and the exact value of \<^verbatim>\<open>diameter()\<close>, for every order the runtime
  picks in the \<^verbatim>\<open>range\<close> statements.
\<close>

theorem test_scenarios:
  assumes "sched_ok sched"
  shows "fst (diameter sched (build [])) = 0
       \<and> fst (diameter sched (build [(''a'', ''b'')])) = 1
       \<and> fst (diameter sched (build [(''a'', ''b''), (''b'', ''c'')])) = 2
       \<and> fst (diameter sched (build [(''a'', ''b''), (''b'', ''c''), (''c'', ''d'')])) = 3
       \<and> fst (diameter sched (build [(''a'', ''b''), (''b'', ''c''), (''a'', ''c'')])) = 1
       \<and> fst (diameter sched
            (build [(''a'', ''b''), (''b'', ''c''), (''c'', ''d''), (''a'', ''d'')])) = 2
       \<and> fst (diameter sched
            (build [(''a'', ''b''), (''b'', ''c''), (''c'', ''a''),
                    (''c'', ''d''), (''d'', ''e''), (''e'', ''c'')])) = 2"
  unfolding diameter_order_independent [OF wf_graph_build assms sched_ok_in_order]
  using eval_scenarios by simp

theorem test_scenarios_witness:
  "sched_ok (\<lambda>j. reversed)
   \<and> fst (diameter (\<lambda>j. reversed) (build [])) = 0
   \<and> fst (diameter (\<lambda>j. reversed) (build [(''a'', ''b'')])) = 1
   \<and> fst (diameter (\<lambda>j. reversed) (build [(''a'', ''b''), (''b'', ''c''), (''c'', ''d'')])) = 3
   \<and> fst (diameter (\<lambda>j. reversed)
        (build [(''a'', ''b''), (''b'', ''c''), (''c'', ''a''),
                (''c'', ''d''), (''d'', ''e''), (''e'', ''c'')])) = 2"
  using test_scenarios [OF sched_ok_reversed] sched_ok_reversed by simp

text \<open>
  C10. The search terminates and handles every node once. The loop of \<^verbatim>\<open>diameter\<close>
  runs once per key of \<open>nodes\<close> (\<open>diameter_loop\<close> recurses on the list of keys), and the
  loop of each search terminates: its start state is in the domain of the recursion of
  \<open>bfs_loop\<close>. For the search from a node \<open>v\<close> of a graph built by \<^verbatim>\<open>addEdge\<close> calls: no
  node is dequeued twice; the nodes dequeued are the start node followed by the nodes
  pushed, in the order they were pushed (so nothing is pushed twice and the queue
  empties); the loop runs at most once per node of the graph; and each iteration visits
  every adjacency entry of its node exactly once.
\<close>

theorem search_visits_each_node_once:
  assumes "range_ok ord" and "map_of (nodes (build es)) v = Some n"
  shows "bfs_loop_dom (ord, 0, heap (build es),
           AList.update (id' (heap (build es) ! n)) \<lparr>parent = Some n, depth = 0\<rparr> [], [n], n)
       \<and> distinct (dequeued (search_trace ord (build es) n))
       \<and> dequeued (search_trace ord (build es) n) = n # enqueued (search_trace ord (build es) n)
       \<and> length (dequeued (search_trace ord (build es) n)) \<le> length (nodes (build es))
       \<and> (\<forall>st \<in> set (search_trace ord (build es) n).
             mset (fst (snd st)) = mset (adj (heap (build es) ! fst st))
             \<and> distinct (map fst (fst (snd st))))
       \<and> snd (search_result ord (build es) n) = last (dequeued (search_trace ord (build es) n))"
  using search_trace_props [OF wf_graph_build assms] search_result_last bfs_loop_terminates
  by blast

lemma eval_path3_trace:
  "search_trace reversed (build [(''a'', ''b''), (''b'', ''c'')]) 1
   = [(1, [(2, 2), (0, 0)], [2, 0]), (2, [(1, 1)], []), (0, [(1, 1)], [])]"
  by code_simp

lemma eval_path3_node1:
  "map_of (nodes (build [(''a'', ''b''), (''b'', ''c'')])) 1 = Some 1"
  by code_simp

theorem search_visits_each_node_once_witness:
  "range_ok reversed
   \<and> map_of (nodes (build [(''a'', ''b''), (''b'', ''c'')])) 1 = Some 1
   \<and> dequeued (search_trace reversed (build [(''a'', ''b''), (''b'', ''c'')]) 1) = [1, 2, 0]
   \<and> enqueued (search_trace reversed (build [(''a'', ''b''), (''b'', ''c'')]) 1) = [2, 0]
   \<and> distinct (dequeued (search_trace reversed (build [(''a'', ''b''), (''b'', ''c'')]) 1))
   \<and> length (dequeued (search_trace reversed (build [(''a'', ''b''), (''b'', ''c'')]) 1))
        \<le> length (nodes (build [(''a'', ''b''), (''b'', ''c'')]))
   \<and> snd (search_result reversed (build [(''a'', ''b''), (''b'', ''c'')]) 1) = 0"
proof -
  have d: "dequeued (search_trace reversed (build [(''a'', ''b''), (''b'', ''c'')]) 1) = [1, 2, 0]"
    unfolding eval_path3_trace by (simp add: dequeued_def)
  have e: "enqueued (search_trace reversed (build [(''a'', ''b''), (''b'', ''c'')]) 1) = [2, 0]"
    unfolding eval_path3_trace by (simp add: enqueued_def)
  from search_visits_each_node_once [OF range_ok_reversed eval_path3_node1]
  have "distinct (dequeued (search_trace reversed (build [(''a'', ''b''), (''b'', ''c'')]) 1))"
    and "length (dequeued (search_trace reversed (build [(''a'', ''b''), (''b'', ''c'')]) 1))
        \<le> length (nodes (build [(''a'', ''b''), (''b'', ''c'')]))"
    and "snd (search_result reversed (build [(''a'', ''b''), (''b'', ''c'')]) 1)
        = last (dequeued (search_trace reversed (build [(''a'', ''b''), (''b'', ''c'')]) 1))"
    by blast+
  with d e range_ok_reversed eval_path3_node1 show ?thesis by simp
qed

section \<open>Names, ids and edge insertion by name\<close>

lemma update_fresh: "map_of al k = None \<Longrightarrow> AList.update k v al = al @ [(k, v)]"
  by (induction al) (auto split: if_splits)

lemma getID_cases:
  obtains (old) i where "map_of s x = Some i" "getID s x = (i, s)"
  | (new) "map_of s x = None" "getID s x = (of_nat (length s), s @ [(x, of_nat (length s))])"
  by (cases "map_of s x") (auto simp: getID_def Let_def update_fresh)

lemma getID_result: "getID s x = (i, s') \<Longrightarrow> map_of s' x = Some i"
  by (cases rule: getID_cases [of s x]) (auto simp: map_add_def)

lemma getID_mono: "getID s x = (i, s') \<Longrightarrow> map_of s y = Some j \<Longrightarrow> map_of s' y = Some j"
  by (cases rule: getID_cases [of s x]) (auto simp: map_add_def)

lemma getID_keys: "getID s x = (i, s') \<Longrightarrow> fst ` set s' = insert x (fst ` set s)"
  by (cases rule: getID_cases [of s x]) (auto dest: map_of_SomeD simp: rev_image_eqI)

lemma getID_vals: "getID s x = (i, s') \<Longrightarrow> snd ` set s' = insert i (snd ` set s)"
  by (cases rule: getID_cases [of s x]) (auto dest: map_of_SomeD simp: rev_image_eqI)

text \<open>
  What \<^verbatim>\<open>Graph.addEdge\<close> does to a well-formed graph, in terms of the ids the symbol
  table hands out for the two names.
\<close>

lemma addEdge_spec:
  assumes wf: "wf_graph g"
    and a: "getID (symbolTable g) a = (ia, s1)" and b: "getID s1 b = (ib, s2)"
  shows "symbolTable (addEdge g a b) = s2"
    and "node_ids (addEdge g a b) = node_ids g \<union> {ia, ib}"
    and "edges (addEdge g a b) = edges g \<union> {(ia, ib), (ib, ia)}"
    and "map_of s2 a = Some ia" and "map_of s2 b = Some ib"
    and "\<And>x i. map_of (symbolTable g) x = Some i \<Longrightarrow> map_of s2 x = Some i"
proof -
  have r: "addEdge g a b = nodes_addEdge (g\<lparr>symbolTable := s2\<rparr>) ia ib"
    by (simp add: addEdge_def a b)
  have wf': "wf_graph (g\<lparr>symbolTable := s2\<rparr>)" using wf by simp
  show "symbolTable (addEdge g a b) = s2"
    unfolding r nodes_addEdge_spec(4) [OF wf'] by simp
  show "node_ids (addEdge g a b) = node_ids g \<union> {ia, ib}"
    unfolding r nodes_addEdge_spec(2) [OF wf'] by simp
  show "edges (addEdge g a b) = edges g \<union> {(ia, ib), (ib, ia)}"
    unfolding r nodes_addEdge_spec(3) [OF wf'] by simp
  show "map_of s2 a = Some ia"
    using getID_mono [OF b getID_result [OF a]] .
  show "map_of s2 b = Some ib"
    using getID_result [OF b] .
  show "map_of s2 x = Some i" if "map_of (symbolTable g) x = Some i" for x i
    using getID_mono [OF b getID_mono [OF a that]] .
qed

text \<open>The edge between two names is in the graph: both have ids, linked both ways.\<close>

definition has_edge :: "Graph \<Rightarrow> nodeName \<Rightarrow> nodeName \<Rightarrow> bool" where
  "has_edge g a b =
     (\<exists>ia ib. map_of (symbolTable g) a = Some ia \<and> map_of (symbolTable g) b = Some ib
        \<and> (ia, ib) \<in> edges g \<and> (ib, ia) \<in> edges g)"

lemma has_edge_addEdge_same:
  assumes wf: "wf_graph g"
  shows "has_edge (addEdge g a b) a b"
proof -
  obtain ia s1 where a: "getID (symbolTable g) a = (ia, s1)" by (cases "getID (symbolTable g) a")
  obtain ib s2 where b: "getID s1 b = (ib, s2)" by (cases "getID s1 b")
  note s = addEdge_spec [OF wf a b]
  show ?thesis
    unfolding has_edge_def s(1) s(3) using s(4) s(5) by auto
qed

lemma has_edge_addEdge_other:
  assumes wf: "wf_graph g" and h: "has_edge g a b"
  shows "has_edge (addEdge g c d) a b"
proof -
  obtain ic s1 where c: "getID (symbolTable g) c = (ic, s1)" by (cases "getID (symbolTable g) c")
  obtain id s2 where d: "getID s1 d = (id, s2)" by (cases "getID s1 d")
  note s = addEdge_spec [OF wf c d]
  from h obtain ia ib where "map_of (symbolTable g) a = Some ia"
    "map_of (symbolTable g) b = Some ib" "(ia, ib) \<in> edges g" "(ib, ia) \<in> edges g"
    by (auto simp: has_edge_def)
  with s(6) show ?thesis
    unfolding has_edge_def s(1) s(3) by auto
qed

lemma has_edge_build:
  "(a, b) \<in> set es \<Longrightarrow> has_edge (build es) a b"
proof (induction es rule: rev_induct)
  case Nil
  then show ?case by simp
next
  case (snoc e es)
  obtain c d where e: "e = (c, d)" by (cases e)
  show ?case
  proof (cases "(a, b) = (c, d)")
    case True
    then show ?thesis
      unfolding e build_snoc using has_edge_addEdge_same [OF wf_graph_build] by simp
  next
    case False
    with snoc e have "has_edge (build es) a b" by auto
    then show ?thesis
      unfolding e build_snoc by (rule has_edge_addEdge_other [OF wf_graph_build])
  qed
qed

lemma add_present:
  assumes "n < length h" and "map_of (adj (h ! n)) (id' (h ! m)) = Some m"
  shows "add h n m = h"
proof -
  from assms(2) have "AList.update (id' (h ! m)) m (adj (h ! n)) = adj (h ! n)"
    by (rule update_triv)
  then show ?thesis
    by (simp add: add_def list_update_id)
qed

lemma addEdge_present:
  assumes wf: "wf_graph g" and h: "has_edge g a b"
  shows "addEdge g a b = g"
proof -
  from h obtain ia ib where a: "map_of (symbolTable g) a = Some ia"
    and b: "map_of (symbolTable g) b = Some ib" and e: "(ia, ib) \<in> edges g"
    by (auto simp: has_edge_def)
  from e obtain an bn where an: "map_of (nodes g) ia = Some an"
    and ab: "map_of (adj (heap g ! an)) ib = Some bn"
    by (auto simp: edges_iff)
  from wf_ptr [OF wf an] have anl: "an < length (heap g)" and ani: "id' (heap g ! an) = ia"
    by simp_all
  from wf_adj_ptr [OF wf anl ab] have bn: "map_of (nodes g) ib = Some bn" .
  from wf_ptr [OF wf bn] have bnl: "bn < length (heap g)" and bni: "id' (heap g ! bn) = ib"
    by simp_all
  from wf_adj_sym [OF wf anl ab] ani have ba: "map_of (adj (heap g ! bn)) ia = Some an"
    by simp
  have 1: "add (heap g) an bn = heap g"
    using anl ab bni by (intro add_present) simp_all
  have 2: "add (heap g) bn an = heap g"
    using bnl ba ani by (intro add_present) simp_all
  have "getID (symbolTable g) a = (ia, symbolTable g)"
    "getID (symbolTable g) b = (ib, symbolTable g)"
    using a b by (simp_all add: getID_def)
  moreover have "get g ia = (an, g)" "get g ib = (bn, g)"
    using an bn by (simp_all add: get_def)
  ultimately show ?thesis
    by (simp add: addEdge_def nodes_addEdge_def 1 2)
qed

section \<open>Inserting an edge twice\<close>

text \<open>
  C4. Once the edge \<open>(a, b)\<close> has been inserted (it is in the list of edges the graph
  was built from), inserting it again leaves the whole graph as it is: the second call
  finds both names in the symbol table, both nodes in \<open>nodes\<close>, and stores the pointers
  the adjacency maps already hold. So the number of nodes and the value of
  \<^verbatim>\<open>diameter()\<close> (for any orders of the \<^verbatim>\<open>range\<close> statements in the two queries) are
  the same.
\<close>

theorem duplicate_edge_changes_nothing:
  assumes "(a, b) \<in> set es" and "sched_ok sched" and "sched_ok sched'"
  shows "addEdge (build es) a b = build es
       \<and> fst (diameter sched' (addEdge (build es) a b)) = fst (diameter sched (build es))
       \<and> length (nodes (addEdge (build es) a b)) = length (nodes (build es))
       \<and> node_ids (addEdge (build es) a b) = node_ids (build es)"
proof -
  have "addEdge (build es) a b = build es"
    by (rule addEdge_present [OF wf_graph_build has_edge_build [OF assms(1)]])
  with diameter_order_independent [OF wf_graph_build assms(3) assms(2), of es]
  show ?thesis by simp
qed

lemma eval_duplicate:
  "fst (diameter (\<lambda>j. reversed)
     (addEdge (build [(''a'', ''b''), (''b'', ''c'')]) ''a'' ''b'')) = 2"
  "fst (diameter (\<lambda>j. in_order) (build [(''a'', ''b''), (''b'', ''c'')])) = 2"
  "length (nodes (build [(''a'', ''b''), (''b'', ''c'')])) = 3"
  by code_simp+

theorem duplicate_edge_changes_nothing_witness:
  "(''a'', ''b'') \<in> set [(''a'', ''b''), (''b'', ''c'')]
   \<and> sched_ok (\<lambda>j. in_order) \<and> sched_ok (\<lambda>j. reversed)
   \<and> addEdge (build [(''a'', ''b''), (''b'', ''c'')]) ''a'' ''b''
       = build [(''a'', ''b''), (''b'', ''c'')]
   \<and> fst (diameter (\<lambda>j. reversed)
        (addEdge (build [(''a'', ''b''), (''b'', ''c'')]) ''a'' ''b'')) = 2
   \<and> fst (diameter (\<lambda>j. in_order) (build [(''a'', ''b''), (''b'', ''c'')])) = 2
   \<and> length (nodes (addEdge (build [(''a'', ''b''), (''b'', ''c'')]) ''a'' ''b'')) = 3"
proof -
  have m: "(''a'', ''b'') \<in> set [(''a'', ''b''), (''b'', ''c'')]" by simp
  from duplicate_edge_changes_nothing [OF m sched_ok_in_order sched_ok_reversed]
    eval_duplicate m sched_ok_in_order sched_ok_reversed
  show ?thesis by simp
qed

section \<open>Adding an edge to a connected graph\<close>

definition connected_graph :: "'a set \<Rightarrow> ('a \<times> 'a) set \<Rightarrow> bool" where
  "connected_graph V E = (\<forall>u \<in> V. \<forall>v \<in> V. same_component E u v)"

text \<open>
  The invariant that ties the symbol table to the nodes: names are distinct keys, the
  ids are handed out in first-seen order (the \<open>k\<close>-th name gets \<open>k\<close>, cut to 32 bits),
  and the nodes of the graph are exactly the ids of the table.
\<close>

definition wf_names :: "Graph \<Rightarrow> bool" where
  "wf_names g =
     (distinct (map fst (symbolTable g))
      \<and> map snd (symbolTable g) = map of_nat [0..<length (symbolTable g)]
      \<and> node_ids g = snd ` set (symbolTable g))"

lemma getID_table:
  assumes "distinct (map fst s)" and "map snd s = map of_nat [0..<length s]"
    and "getID s x = (i, s')"
  shows "distinct (map fst s') \<and> map snd s' = map of_nat [0..<length s']"
  using assms by (cases rule: getID_cases [of s x]) (auto simp: map_of_eq_None_iff)

lemma wf_names_addEdge:
  assumes wf: "wf_graph g" and wn: "wf_names g"
  shows "wf_names (addEdge g a b)"
proof -
  obtain ia s1 where a: "getID (symbolTable g) a = (ia, s1)" by (cases "getID (symbolTable g) a")
  obtain ib s2 where b: "getID s1 b = (ib, s2)" by (cases "getID s1 b")
  note s = addEdge_spec [OF wf a b]
  from wn have t0: "distinct (map fst (symbolTable g))"
    "map snd (symbolTable g) = map of_nat [0..<length (symbolTable g)]"
    and n0: "node_ids g = snd ` set (symbolTable g)"
    by (simp_all add: wf_names_def)
  from getID_table [OF t0 a] have t1: "distinct (map fst s1)"
    "map snd s1 = map of_nat [0..<length s1]" by simp_all
  from getID_table [OF t1 b] have t2: "distinct (map fst s2)"
    "map snd s2 = map of_nat [0..<length s2]" by simp_all
  have "node_ids g \<union> {ia, ib} = snd ` set s2"
    unfolding n0 getID_vals [OF b] getID_vals [OF a] by auto
  with t2 show ?thesis
    unfolding wf_names_def s(1) s(2) by simp
qed

lemma wf_names_build: "wf_names (build es)"
proof (induction es rule: rev_induct)
  case Nil
  show ?case by (simp add: wf_names_def build_def New_def node_ids_def)
next
  case (snoc e es)
  then show ?case
    using wf_names_addEdge [OF wf_graph_build, of es "fst e" "snd e"]
    by (cases e) (simp add: build_snoc)
qed

lemma relpow_subset:
  fixes E :: "('a \<times> 'a) set"
  shows "E \<subseteq> E' \<Longrightarrow> (u, v) \<in> E ^^ n \<Longrightarrow> (u, v) \<in> E' ^^ n"
  by (induction n arbitrary: v) auto

lemma graph_diameter_more_edges:
  assumes fin: "finite V" and con: "connected_graph V E" and sym: "sym E" and sub: "E \<subseteq> E'"
  shows "graph_diameter V E' \<le> graph_diameter V E"
proof (cases "V = {}")
  case True
  then show ?thesis by (simp add: graph_diameter_def)
next
  case False
  let ?S = "{int (hop_dist E u v) | u v. u \<in> V \<and> v \<in> V \<and> same_component E u v}"
  let ?S' = "{int (hop_dist E' u v) | u v. u \<in> V \<and> v \<in> V \<and> same_component E' u v}"
  have "?S \<subseteq> (\<lambda>(u, v). int (hop_dist E u v)) ` (V \<times> V)" by auto
  then have finS: "finite ?S"
    by (rule finite_subset) (simp add: fin)
  have "?S' \<subseteq> (\<lambda>(u, v). int (hop_dist E' u v)) ` (V \<times> V)" by auto
  then have finS': "finite ?S'"
    by (rule finite_subset) (simp add: fin)
  from False obtain w where w: "w \<in> V" by auto
  have "same_component E' w w" by (simp add: same_component_def)
  with w have ne: "?S' \<noteq> {}" by blast
  from sym have conv: "E\<inverse> = E" by (simp add: sym_conv_converse_eq)
  have "y \<le> Max ?S" if "y \<in> ?S'" for y
  proof -
    from that obtain u v where y: "y = int (hop_dist E' u v)" and uv: "u \<in> V" "v \<in> V"
      by auto
    from con uv have sc: "same_component E u v" by (simp add: connected_graph_def)
    then have "(u, v) \<in> E\<^sup>*" by (simp add: same_component_def conv)
    from relpow_subset [OF sub hop_dist_path [OF this]]
    have "hop_dist E' u v \<le> hop_dist E u v" by (rule hop_dist_le)
    moreover have "int (hop_dist E u v) \<le> Max ?S"
      using uv sc by (intro Max_ge [OF finS]) auto
    ultimately show ?thesis using y by simp
  qed
  then have "Max ?S' \<le> Max ?S"
    using finS' ne by (simp add: Max_le_iff)
  with False show ?thesis by (simp add: graph_diameter_def)
qed

lemma addEdge_present_names:
  assumes wf: "wf_graph g" and wn: "wf_names g"
    and a: "a \<in> fst ` set (symbolTable g)" and b: "b \<in> fst ` set (symbolTable g)"
  shows "node_ids (addEdge g a b) = node_ids g \<and> edges g \<subseteq> edges (addEdge g a b)"
proof -
  from a obtain ia where ia: "map_of (symbolTable g) a = Some ia"
    by (metis map_of_eq_None_iff not_Some_eq)
  from b obtain ib where ib: "map_of (symbolTable g) b = Some ib"
    by (metis map_of_eq_None_iff not_Some_eq)
  have ga: "getID (symbolTable g) a = (ia, symbolTable g)"
    and gb: "getID (symbolTable g) b = (ib, symbolTable g)"
    using ia ib by (simp_all add: getID_def)
  note s = addEdge_spec [OF wf ga gb]
  from wn map_of_SomeD [OF ia] map_of_SomeD [OF ib] have "ia \<in> node_ids g" "ib \<in> node_ids g"
    by (auto simp: wf_names_def rev_image_eqI)
  then show ?thesis
    unfolding s(2) s(3) by auto
qed

text \<open>
  C7, as stated, fails: \<^verbatim>\<open>addEdge\<close> also creates nodes. The graph with the single edge
  a-b is connected and has diameter 1; after \<^verbatim>\<open>addEdge("b", "c")\<close> it is the path
  a-b-c and has diameter 2.
\<close>

lemma eval_grow:
  "fst (diameter (\<lambda>j. in_order) (build [(''a'', ''b'')])) = 1"
  "fst (diameter (\<lambda>j. in_order) (addEdge (build [(''a'', ''b'')]) ''b'' ''c'')) = 2"
  by code_simp+

lemma connected_graphI:
  assumes "\<forall>v \<in> V. (r, v) \<in> (E \<union> E\<inverse>)\<^sup>*"
  shows "connected_graph V E"
  unfolding connected_graph_def same_component_def
proof (intro ballI)
  fix u v assume u: "u \<in> V" and v: "v \<in> V"
  have "sym ((E \<union> E\<inverse>)\<^sup>*)"
    by (intro sym_rtrancl symI) auto
  with assms u have "(u, r) \<in> (E \<union> E\<inverse>)\<^sup>*" by (auto dest: symD)
  with assms v show "(u, v) \<in> (E \<union> E\<inverse>)\<^sup>*" by (auto intro: rtrancl_trans)
qed

lemma connected_edge_ab:
  "connected_graph (node_ids (build [(''a'', ''b'')])) (edges (build [(''a'', ''b'')]))"
proof (rule connected_graphI [where r = 0])
  let ?g = "build [(''a'', ''b'')]"
  have V: "node_ids ?g = {0, 1}"
    by (simp add: node_ids_def build_ab_nodes)
  have "(0, 1) \<in> edges ?g"
    by (simp add: edges_def neighbours_def build_ab_heap build_ab_nodes)
  then have "(0, 1) \<in> (edges ?g \<union> (edges ?g)\<inverse>)\<^sup>*" by auto
  then show "\<forall>v \<in> node_ids ?g. (0, v) \<in> (edges ?g \<union> (edges ?g)\<inverse>)\<^sup>*"
    unfolding V by simp
qed

text \<open>
  Counterexample to C7 as stated: the graph built from the edge a-b is connected, its
  diameter is 1, and one more \<^verbatim>\<open>addEdge("b", "c")\<close> raises the diameter to 2.
\<close>

theorem addEdge_new_node_increases_diameter:
  "connected_graph (node_ids (build [(''a'', ''b'')])) (edges (build [(''a'', ''b'')]))
   \<and> fst (diameter (\<lambda>j. in_order) (build [(''a'', ''b'')])) = 1
   \<and> fst (diameter (\<lambda>j. in_order) (addEdge (build [(''a'', ''b'')]) ''b'' ''c'')) = 2
   \<and> \<not> fst (diameter (\<lambda>j. in_order) (addEdge (build [(''a'', ''b'')]) ''b'' ''c''))
         \<le> fst (diameter (\<lambda>j. in_order) (build [(''a'', ''b'')]))"
  using connected_edge_ab eval_grow by simp

text \<open>
  C7, amended. For every graph built by \<^verbatim>\<open>addEdge\<close> calls whose nodes form a single
  connected component, one more \<^verbatim>\<open>addEdge\<close> call between two names that are both in the
  symbol table already never increases the value of \<^verbatim>\<open>diameter()\<close>, whatever the orders
  of the \<^verbatim>\<open>range\<close> statements in the two queries.
\<close>

theorem addEdge_between_present_names_never_increases_diameter:
  assumes "sched_ok sched" and "sched_ok sched'"
    and "connected_graph (node_ids (build es)) (edges (build es))"
    and "a \<in> fst ` set (symbolTable (build es))" and "b \<in> fst ` set (symbolTable (build es))"
  shows "fst (diameter sched' (addEdge (build es) a b)) \<le> fst (diameter sched (build es))"
proof -
  let ?g = "build es"
  from addEdge_present_names [OF wf_graph_build wf_names_build assms(4,5)]
  have V: "node_ids (addEdge ?g a b) = node_ids ?g" and E: "edges ?g \<subseteq> edges (addEdge ?g a b)"
    by simp_all
  have "fst (diameter sched' (addEdge ?g a b))
        = graph_diameter (node_ids ?g) (edges (addEdge ?g a b))"
    using diameter_correct [OF wf_graph_addEdge [OF wf_graph_build] assms(2), of es a b] V
    by simp
  also have "\<dots> \<le> graph_diameter (node_ids ?g) (edges ?g)"
    by (rule graph_diameter_more_edges [OF _ assms(3) wf_edges_symrel [OF wf_graph_build] E])
       (simp add: node_ids_def)
  also have "\<dots> = fst (diameter sched ?g)"
    using diameter_correct [OF wf_graph_build assms(1), of es] by simp
  finally show ?thesis .
qed

lemma build_abc_nodes: "nodes (build [(''a'', ''b''), (''b'', ''c'')]) = [(0, 0), (1, 1), (2, 2)]"
  by code_simp

lemma build_abc_heap:
  "heap (build [(''a'', ''b''), (''b'', ''c'')])
   = [\<lparr>id' = 0, adj = [(1, 1)]\<rparr>, \<lparr>id' = 1, adj = [(0, 0), (2, 2)]\<rparr>, \<lparr>id' = 2, adj = [(1, 1)]\<rparr>]"
  by code_simp

lemma build_abc_table:
  "symbolTable (build [(''a'', ''b''), (''b'', ''c'')]) = [(''a'', 0), (''b'', 1), (''c'', 2)]"
  by code_simp

lemma connected_path_abc:
  "connected_graph (node_ids (build [(''a'', ''b''), (''b'', ''c'')]))
     (edges (build [(''a'', ''b''), (''b'', ''c'')]))"
proof (rule connected_graphI [where r = 1])
  let ?g = "build [(''a'', ''b''), (''b'', ''c'')]"
  have V: "node_ids ?g = {0, 1, 2}"
    by (simp add: node_ids_def build_abc_nodes)
  have "(1, 0) \<in> edges ?g" "(1, 2) \<in> edges ?g"
    by (simp_all add: edges_def neighbours_def build_abc_heap build_abc_nodes)
  then have "(1, 0) \<in> (edges ?g \<union> (edges ?g)\<inverse>)\<^sup>*" "(1, 2) \<in> (edges ?g \<union> (edges ?g)\<inverse>)\<^sup>*"
    by auto
  then show "\<forall>v \<in> node_ids ?g. (1, v) \<in> (edges ?g \<union> (edges ?g)\<inverse>)\<^sup>*"
    unfolding V by simp
qed

lemma eval_shortcut:
  "fst (diameter (\<lambda>j. reversed) (addEdge (build [(''a'', ''b''), (''b'', ''c'')]) ''a'' ''c'')) = 1"
  "fst (diameter (\<lambda>j. in_order) (build [(''a'', ''b''), (''b'', ''c'')])) = 2"
  by code_simp+

theorem addEdge_between_present_names_never_increases_diameter_witness:
  "sched_ok (\<lambda>j. in_order) \<and> sched_ok (\<lambda>j. reversed)
   \<and> connected_graph (node_ids (build [(''a'', ''b''), (''b'', ''c'')]))
        (edges (build [(''a'', ''b''), (''b'', ''c'')]))
   \<and> ''a'' \<in> fst ` set (symbolTable (build [(''a'', ''b''), (''b'', ''c'')]))
   \<and> ''c'' \<in> fst ` set (symbolTable (build [(''a'', ''b''), (''b'', ''c'')]))
   \<and> fst (diameter (\<lambda>j. reversed) (addEdge (build [(''a'', ''b''), (''b'', ''c'')]) ''a'' ''c''))
       \<le> fst (diameter (\<lambda>j. in_order) (build [(''a'', ''b''), (''b'', ''c'')]))
   \<and> fst (diameter (\<lambda>j. reversed) (addEdge (build [(''a'', ''b''), (''b'', ''c'')]) ''a'' ''c'')) = 1
   \<and> fst (diameter (\<lambda>j. in_order) (build [(''a'', ''b''), (''b'', ''c'')])) = 2"
proof -
  have a: "''a'' \<in> fst ` set (symbolTable (build [(''a'', ''b''), (''b'', ''c'')]))"
    and c: "''c'' \<in> fst ` set (symbolTable (build [(''a'', ''b''), (''b'', ''c'')]))"
    by (simp_all add: build_abc_table)
  from addEdge_between_present_names_never_increases_diameter
    [OF sched_ok_in_order sched_ok_reversed connected_path_abc a c]
    a c sched_ok_in_order sched_ok_reversed connected_path_abc eval_shortcut
  show ?thesis by simp
qed

section \<open>Self-loops\<close>

text \<open>
  The graph \<open>g\<close> with the entry of the node at address \<open>p\<close> for its own id removed from
  its adjacency map (\<^verbatim>\<open>delete(n.adj, n.id)\<close>); everything else as in \<open>g\<close>. The program
  has no such operation: it is the graph the self-loop claim compares with.
\<close>

definition without_self_adj :: "Graph \<Rightarrow> addr \<Rightarrow> Graph" where
  "without_self_adj g p =
     g\<lparr>heap := (heap g)[p := (heap g ! p)\<lparr>adj := AList.delete (id' (heap g ! p)) (adj (heap g ! p))\<rparr>]\<rparr>"

lemma without_self_adj_simps:
  "nodes (without_self_adj g p) = nodes g"
  "symbolTable (without_self_adj g p) = symbolTable g"
  "length (heap (without_self_adj g p)) = length (heap g)"
  "r < length (heap g) \<Longrightarrow> id' (heap (without_self_adj g p) ! r) = id' (heap g ! r)"
  "r < length (heap g) \<Longrightarrow> map_of (adj (heap (without_self_adj g p) ! r)) k =
     (if r = p \<and> k = id' (heap g ! p) then None else map_of (adj (heap g ! r)) k)"
  "r < length (heap g) \<Longrightarrow> distinct (map fst (adj (heap g ! r))) \<Longrightarrow>
     distinct (map fst (adj (heap (without_self_adj g p) ! r)))"
  by (cases "p < length (heap g)";
      auto simp: without_self_adj_def nth_list_update list_update_beyond not_less
        delete_conv' distinct_delete)+

lemma wf_graph_without_self_adj:
  assumes wf: "wf_graph g"
  shows "wf_graph (without_self_adj g p)" (is "wf_graph ?g")
proof (rule wf_graphI)
  note s = without_self_adj_simps [where g = g and p = p]
  show "distinct (map fst (nodes ?g))"
    using wf_distinct [OF wf] by (simp add: s)
  show "r < length (heap ?g) \<and> id' (heap ?g ! r) = i" if "map_of (nodes ?g) i = Some r" for i r
    using wf_ptr [OF wf, of i r] that by (simp add: s)
  show "map_of (nodes ?g) (id' (heap ?g ! r)) = Some r" if "r < length (heap ?g)" for r
    using wf_reg [OF wf, of r] that by (simp add: s)
  show "distinct (map fst (adj (heap ?g ! r)))" if "r < length (heap ?g)" for r
    using wf_adj_distinct [OF wf, of r] that by (simp add: s)
  show "map_of (nodes ?g) k = Some q"
    if "r < length (heap ?g)" "map_of (adj (heap ?g ! r)) k = Some q" for r k q
    using wf_adj_ptr [OF wf, of r k q] that by (simp add: s split: if_splits)
  show "map_of (adj (heap ?g ! q)) (id' (heap ?g ! r)) = Some r"
    if "r < length (heap ?g)" "map_of (adj (heap ?g ! r)) k = Some q" for r k q
  proof -
    from that have r: "r < length (heap g)" by (simp add: s)
    from that r have old: "map_of (adj (heap g ! r)) k = Some q"
      and nself: "\<not> (r = p \<and> k = id' (heap g ! p))"
      by (simp_all add: s split: if_splits)
    from wf_ptr [OF wf wf_adj_ptr [OF wf r old]]
    have q: "q < length (heap g)" and qi: "id' (heap g ! q) = k" by simp_all
    from wf_adj_sym [OF wf r old] have sym: "map_of (adj (heap g ! q)) (id' (heap g ! r)) = Some r" .
    have "\<not> (q = p \<and> id' (heap g ! r) = id' (heap g ! p))"
    proof
      assume c: "q = p \<and> id' (heap g ! r) = id' (heap g ! p)"
      with wf_reg [OF wf r] wf_reg [OF wf q] have "r = p" by simp
      with c qi nself show False by simp
    qed
    with sym r q show ?thesis by (simp add: s)
  qed
qed

lemma edges_without_self_adj:
  assumes wf: "wf_graph g" and p: "p < length (heap g)"
  shows "edges (without_self_adj g p) = edges g - {(id' (heap g ! p), id' (heap g ! p))}"
proof -
  note s = without_self_adj_simps [where g = g and p = p]
  have "(i, j) \<in> edges (without_self_adj g p)
        \<longleftrightarrow> (i, j) \<in> edges g - {(id' (heap g ! p), id' (heap g ! p))}" for i j
  proof (cases "map_of (nodes g) i")
    case None
    then show ?thesis by (simp add: edges_iff s)
  next
    case (Some r)
    from wf_ptr [OF wf Some] have r: "r < length (heap g)" "id' (heap g ! r) = i" by simp_all
    have rp: "r = p \<longleftrightarrow> i = id' (heap g ! p)"
      using r(2) Some wf_reg [OF wf p] by (metis option.inject)
    have "(i, j) \<in> edges (without_self_adj g p)
          \<longleftrightarrow> (\<exists>q. map_of (adj (heap (without_self_adj g p) ! r)) j = Some q)"
      using Some by (simp add: edges_iff s(1))
    moreover have "(i, j) \<in> edges g \<longleftrightarrow> (\<exists>q. map_of (adj (heap g ! r)) j = Some q)"
      using Some by (simp add: edges_iff)
    ultimately show ?thesis
      unfolding s(5) [OF r(1)] using rp by auto
  qed
  then show ?thesis by auto
qed

lemma relpow_drop_loop:
  fixes E :: "('a \<times> 'a) set"
  shows "(u, v) \<in> E ^^ n \<Longrightarrow> \<exists>m \<le> n. (u, v) \<in> (E - {(x, x)}) ^^ m"
proof (induction n arbitrary: v)
  case 0
  then show ?case by simp
next
  case (Suc n)
  then obtain w where w: "(u, w) \<in> E ^^ n" and e: "(w, v) \<in> E" by auto
  from Suc.IH [OF w] obtain m where m: "m \<le> n" "(u, w) \<in> (E - {(x, x)}) ^^ m" by blast
  show ?case
  proof (cases "(w, v) = (x, x)")
    case True
    with m have "(u, v) \<in> (E - {(x, x)}) ^^ m" by simp
    with m(1) show ?thesis by (intro exI [of _ m]) simp
  next
    case False
    with e m(2) have "(u, v) \<in> (E - {(x, x)}) ^^ Suc m" by auto
    with m(1) show ?thesis by (intro exI [of _ "Suc m"]) simp
  qed
qed

lemma hop_dist_drop_loop: "hop_dist (E - {(x, x)}) u v = hop_dist E u v"
proof (cases "\<exists>n. (u, v) \<in> E ^^ n")
  case True
  then have r: "(u, v) \<in> E\<^sup>*" by (simp add: rtrancl_power)
  from relpow_drop_loop [OF hop_dist_path [OF r], of x] obtain m where
    m: "m \<le> hop_dist E u v" "(u, v) \<in> (E - {(x, x)}) ^^ m" by blast
  from hop_dist_le [OF m(2)] m(1) have 1: "hop_dist (E - {(x, x)}) u v \<le> hop_dist E u v"
    by simp
  from m(2) have "(u, v) \<in> (E - {(x, x)})\<^sup>*" by (auto simp: rtrancl_power)
  from relpow_subset [OF _ hop_dist_path [OF this], of E]
  have "hop_dist E u v \<le> hop_dist (E - {(x, x)}) u v"
    by (intro hop_dist_le) auto
  with 1 show ?thesis by simp
next
  case False
  then have "\<And>n. (u, v) \<notin> (E - {(x, x)}) ^^ n"
    using relpow_subset [of "E - {(x, x)}" E u v] by auto
  with False show ?thesis by (simp add: hop_dist_def)
qed

lemma rtrancl_drop_loop: "(E - {(x, x)})\<^sup>* = E\<^sup>*"
proof
  show "(E - {(x, x)})\<^sup>* \<subseteq> E\<^sup>*" by (rule rtrancl_mono) auto
  show "E\<^sup>* \<subseteq> (E - {(x, x)})\<^sup>*"
  proof
    fix e assume "e \<in> E\<^sup>*"
    then obtain u v n where e: "e = (u, v)" and "(u, v) \<in> E ^^ n"
      by (cases e) (auto simp: rtrancl_power)
    from relpow_drop_loop [OF this(2), of x] e show "e \<in> (E - {(x, x)})\<^sup>*"
      by (auto simp: rtrancl_power)
  qed
qed

lemma graph_diameter_drop_loop: "graph_diameter V (E - {(x, x)}) = graph_diameter V E"
proof -
  have "(E - {(x, x)}) \<union> (E - {(x, x)})\<inverse> = (E \<union> E\<inverse>) - {(x, x)}" by auto
  then have "same_component (E - {(x, x)}) u v = same_component E u v" for u v
    by (simp add: same_component_def rtrancl_drop_loop)
  then show ?thesis
    by (simp add: graph_diameter_def hop_dist_drop_loop)
qed

lemma self_edge_node:
  assumes wf: "wf_graph g" and e: "(i, i) \<in> edges g"
  shows "\<exists>p. map_of (nodes g) i = Some p \<and> p < length (heap g) \<and> id' (heap g ! p) = i
           \<and> map_of (adj (heap g ! p)) i = Some p"
proof -
  from e obtain p q where p: "map_of (nodes g) i = Some p"
    and q: "map_of (adj (heap g ! p)) i = Some q"
    by (auto simp: edges_iff)
  from wf_ptr [OF wf p] have pl: "p < length (heap g)" "id' (heap g ! p) = i" by simp_all
  from wf_adj_ptr [OF wf pl(1) q] p have "q = p" by simp
  with p q pl show ?thesis by simp
qed

text \<open>
  C8. \<^verbatim>\<open>addEdge(a, a)\<close> has no error branch: it returns a graph in which the name \<open>a\<close> has
  an id \<open>ia\<close>, the id has a node (at address \<open>p\<close>), and the adjacency map of that node
  holds the node itself under its own id. The value of \<^verbatim>\<open>diameter()\<close> on that graph is
  its value on the same graph with that one entry removed (same nodes, the same edges
  but the loop), whatever the orders of the \<^verbatim>\<open>range\<close> statements in the two queries.
\<close>

theorem self_loop_does_not_change_diameter:
  assumes "sched_ok sched" and "sched_ok sched'"
  shows "\<exists>ia p.
           map_of (symbolTable (addEdge (build es) a a)) a = Some ia
         \<and> map_of (nodes (addEdge (build es) a a)) ia = Some p
         \<and> id' (heap (addEdge (build es) a a) ! p) = ia
         \<and> map_of (adj (heap (addEdge (build es) a a) ! p)) ia = Some p
         \<and> node_ids (without_self_adj (addEdge (build es) a a) p)
             = node_ids (addEdge (build es) a a)
         \<and> edges (without_self_adj (addEdge (build es) a a) p)
             = edges (addEdge (build es) a a) - {(ia, ia)}
         \<and> fst (diameter sched (addEdge (build es) a a))
             = fst (diameter sched' (without_self_adj (addEdge (build es) a a) p))"
proof -
  let ?g = "addEdge (build es) a a"
  have wf: "wf_graph ?g" by (rule wf_graph_addEdge [OF wf_graph_build])
  from has_edge_addEdge_same [OF wf_graph_build, of es a a] obtain ia where
    ia: "map_of (symbolTable ?g) a = Some ia" and e: "(ia, ia) \<in> edges ?g"
    by (auto simp: has_edge_def)
  from self_edge_node [OF wf e] obtain p where p: "map_of (nodes ?g) ia = Some p"
    "p < length (heap ?g)" "id' (heap ?g ! p) = ia" "map_of (adj (heap ?g ! p)) ia = Some p"
    by blast
  have V: "node_ids (without_self_adj ?g p) = node_ids ?g"
    by (simp add: node_ids_def without_self_adj_simps)
  have E: "edges (without_self_adj ?g p) = edges ?g - {(ia, ia)}"
    using edges_without_self_adj [OF wf p(2)] p(3) by simp
  have "fst (diameter sched' (without_self_adj ?g p))
        = graph_diameter (node_ids ?g) (edges ?g - {(ia, ia)})"
    using diameter_correct [OF wf_graph_without_self_adj [OF wf] assms(2), of p] V E by simp
  also have "\<dots> = fst (diameter sched ?g)"
    unfolding graph_diameter_drop_loop using diameter_correct [OF wf assms(1)] by simp
  finally have "fst (diameter sched ?g) = fst (diameter sched' (without_self_adj ?g p))"
    by simp
  with ia p V E show ?thesis by blast
qed

lemma eval_self_loop:
  "map_of (symbolTable (addEdge (build [(''a'', ''b'')]) ''c'' ''c'')) ''c'' = Some 2"
  "map_of (nodes (addEdge (build [(''a'', ''b'')]) ''c'' ''c'')) 2 = Some 2"
  "map_of (adj (heap (addEdge (build [(''a'', ''b'')]) ''c'' ''c'') ! 2)) 2 = Some 2"
  "adj (heap (without_self_adj (addEdge (build [(''a'', ''b'')]) ''c'' ''c'') 2) ! 2) = []"
  "fst (diameter (\<lambda>j. in_order) (addEdge (build [(''a'', ''b'')]) ''c'' ''c'')) = 1"
  "fst (diameter (\<lambda>j. reversed)
     (without_self_adj (addEdge (build [(''a'', ''b'')]) ''c'' ''c'') 2)) = 1"
  by code_simp+

theorem self_loop_does_not_change_diameter_witness:
  "sched_ok (\<lambda>j. in_order) \<and> sched_ok (\<lambda>j. reversed)
   \<and> map_of (symbolTable (addEdge (build [(''a'', ''b'')]) ''c'' ''c'')) ''c'' = Some 2
   \<and> map_of (nodes (addEdge (build [(''a'', ''b'')]) ''c'' ''c'')) 2 = Some 2
   \<and> map_of (adj (heap (addEdge (build [(''a'', ''b'')]) ''c'' ''c'') ! 2)) 2 = Some 2
   \<and> fst (diameter (\<lambda>j. in_order) (addEdge (build [(''a'', ''b'')]) ''c'' ''c''))
       = fst (diameter (\<lambda>j. reversed)
           (without_self_adj (addEdge (build [(''a'', ''b'')]) ''c'' ''c'') 2))
   \<and> fst (diameter (\<lambda>j. in_order) (addEdge (build [(''a'', ''b'')]) ''c'' ''c'')) = 1"
proof -
  from self_loop_does_not_change_diameter [OF sched_ok_in_order sched_ok_reversed,
      of "[(''a'', ''b'')]" "''c''"]
  obtain ia p where
    "map_of (symbolTable (addEdge (build [(''a'', ''b'')]) ''c'' ''c'')) ''c'' = Some ia"
    "map_of (nodes (addEdge (build [(''a'', ''b'')]) ''c'' ''c'')) ia = Some p"
    "fst (diameter (\<lambda>j. in_order) (addEdge (build [(''a'', ''b'')]) ''c'' ''c''))
       = fst (diameter (\<lambda>j. reversed)
           (without_self_adj (addEdge (build [(''a'', ''b'')]) ''c'' ''c'') p))"
    by blast
  with eval_self_loop(1,2) have
    "fst (diameter (\<lambda>j. in_order) (addEdge (build [(''a'', ''b'')]) ''c'' ''c''))
       = fst (diameter (\<lambda>j. reversed)
           (without_self_adj (addEdge (build [(''a'', ''b'')]) ''c'' ''c'') 2))"
    by simp
  with eval_self_loop sched_ok_in_order sched_ok_reversed show ?thesis by simp
qed

section \<open>The graph of names and the order of insertion\<close>

definition names :: "(nodeName \<times> nodeName) list \<Rightarrow> nodeName set" where
  "names es = fst ` set es \<union> snd ` set es"

text \<open>The id the symbol table of \<open>g\<close> holds for a name that is in it.\<close>

definition name_id :: "Graph \<Rightarrow> nodeName \<Rightarrow> nodeID" where
  "name_id g x = the (map_of (symbolTable g) x)"

lemma names_snoc: "names (es @ [(a, b)]) = names es \<union> {a, b}"
  by (auto simp: names_def)

lemma symbolTable_keys: "fst ` set (symbolTable (build es)) = names es"
proof (induction es rule: rev_induct)
  case Nil
  show ?case by (simp add: build_def New_def names_def)
next
  case (snoc e es)
  obtain a b where e: "e = (a, b)" by (cases e)
  obtain ia s1 where a: "getID (symbolTable (build es)) a = (ia, s1)"
    by (cases "getID (symbolTable (build es)) a")
  obtain ib s2 where b: "getID s1 b = (ib, s2)" by (cases "getID s1 b")
  from addEdge_spec(1) [OF wf_graph_build a b] getID_keys [OF a] getID_keys [OF b] snoc
  show ?case
    unfolding e build_snoc names_snoc by auto
qed

lemma symbolTable_length: "length (symbolTable (build es)) = card (names es)"
proof -
  from wf_names_build [of es] have "distinct (map fst (symbolTable (build es)))"
    by (simp add: wf_names_def)
  from distinct_card [OF this] show ?thesis
    by (simp add: symbolTable_keys)
qed

lemma name_id_addEdge:
  assumes "x \<in> names es"
  shows "name_id (addEdge (build es) a b) x = name_id (build es) x"
proof -
  obtain ia s1 where a: "getID (symbolTable (build es)) a = (ia, s1)"
    by (cases "getID (symbolTable (build es)) a")
  obtain ib s2 where b: "getID s1 b = (ib, s2)" by (cases "getID s1 b")
  from assms obtain i where i: "map_of (symbolTable (build es)) x = Some i"
    unfolding symbolTable_keys [symmetric] by (metis map_of_eq_None_iff not_Some_eq)
  from addEdge_spec(6) [OF wf_graph_build a b i] addEdge_spec(1) [OF wf_graph_build a b] i
  show ?thesis by (simp add: name_id_def)
qed

lemma edges_build:
  "edges (build es) =
     (\<lambda>e. (name_id (build es) (fst e), name_id (build es) (snd e))) ` (set es \<union> (set es)\<inverse>)"
proof (induction es rule: rev_induct)
  case Nil
  show ?case by (simp add: build_def New_def edges_def neighbours_def)
next
  case (snoc e es)
  obtain a b where e: "e = (a, b)" by (cases e)
  let ?g = "build es"
  let ?g' = "addEdge ?g a b"
  obtain ia s1 where a: "getID (symbolTable ?g) a = (ia, s1)"
    by (cases "getID (symbolTable ?g) a")
  obtain ib s2 where b: "getID s1 b = (ib, s2)" by (cases "getID s1 b")
  note s = addEdge_spec [OF wf_graph_build a b]
  have ia: "name_id ?g' a = ia" and ib: "name_id ?g' b = ib"
    using s(1,4,5) by (simp_all add: name_id_def)
  have old: "(\<lambda>e. (name_id ?g' (fst e), name_id ?g' (snd e))) ` (set es \<union> (set es)\<inverse>)
             = (\<lambda>e. (name_id ?g (fst e), name_id ?g (snd e))) ` (set es \<union> (set es)\<inverse>)"
  proof (rule image_cong [OF refl])
    fix x assume "x \<in> set es \<union> (set es)\<inverse>"
    then have "fst x \<in> names es" "snd x \<in> names es"
      by (auto simp: names_def rev_image_eqI)
    then show "(name_id ?g' (fst x), name_id ?g' (snd x)) = (name_id ?g (fst x), name_id ?g (snd x))"
      by (simp add: name_id_addEdge)
  qed
  have split: "set (es @ [e]) \<union> (set (es @ [e]))\<inverse> = (set es \<union> (set es)\<inverse>) \<union> {(a, b), (b, a)}"
    unfolding e by auto
  have new: "(\<lambda>e. (name_id ?g' (fst e), name_id ?g' (snd e))) ` {(a, b), (b, a)}
             = {(ia, ib), (ib, ia)}"
    by (simp add: ia ib)
  have "edges (build (es @ [e])) = edges ?g \<union> {(ia, ib), (ib, ia)}"
    unfolding e build_snoc s(3) ..
  also have "\<dots> = (\<lambda>e. (name_id ?g' (fst e), name_id ?g' (snd e))) ` (set es \<union> (set es)\<inverse>)
                   \<union> (\<lambda>e. (name_id ?g' (fst e), name_id ?g' (snd e))) ` {(a, b), (b, a)}"
    unfolding snoc.IH old new ..
  also have "\<dots> = (\<lambda>e. (name_id ?g' (fst e), name_id ?g' (snd e)))
                     ` (set (es @ [e]) \<union> (set (es @ [e]))\<inverse>)"
    unfolding split image_Un ..
  finally show ?case
    unfolding e build_snoc .
qed

lemma node_ids_build: "node_ids (build es) = name_id (build es) ` names es"
proof -
  let ?st = "symbolTable (build es)"
  from wf_names_build [of es] have d: "distinct (map fst ?st)"
    and n: "node_ids (build es) = snd ` set ?st"
    by (simp_all add: wf_names_def)
  have "snd e = name_id (build es) (fst e)" if "e \<in> set ?st" for e
  proof -
    obtain x v where e: "e = (x, v)" by (cases e)
    with that d have "map_of ?st x = Some v" by simp
    with e show ?thesis by (simp add: name_id_def)
  qed
  then have "snd ` set ?st = (\<lambda>e. name_id (build es) (fst e)) ` set ?st"
    by (intro image_cong) simp_all
  also have "\<dots> = name_id (build es) ` fst ` set ?st"
    by (simp add: image_image)
  finally show ?thesis
    unfolding n symbolTable_keys .
qed

text \<open>
  Ids are distinct as long as the table has at most \<open>2 ^ 32\<close> entries: the \<open>k\<close>-th entry
  holds \<open>k\<close> cut to 32 bits.
\<close>

lemma of_nat_inj_32:
  "inj_on (of_nat :: nat \<Rightarrow> nodeID) {0..<n}" if "n \<le> 2 ^ 32"
proof (rule inj_onI)
  fix i j :: nat
  assume i: "i \<in> {0..<n}" and j: "j \<in> {0..<n}" and eq: "(of_nat i :: nodeID) = of_nat j"
  from eq have "unat (of_nat i :: nodeID) = unat (of_nat j :: nodeID)" by simp
  then have "i mod 2 ^ 32 = j mod 2 ^ 32" by (simp add: unat_of_nat)
  with i j that show "i = j" by simp
qed

lemma name_id_inj:
  assumes "card (names es) \<le> 2 ^ 32"
  shows "inj_on (name_id (build es)) (names es)"
proof (rule inj_onI)
  let ?st = "symbolTable (build es)"
  fix x y
  assume x: "x \<in> names es" and y: "y \<in> names es"
    and eq: "name_id (build es) x = name_id (build es) y"
  from wf_names_build [of es] have d: "distinct (map fst ?st)"
    and v: "map snd ?st = map of_nat [0..<length ?st]"
    by (simp_all add: wf_names_def)
  from assms have "length ?st \<le> 2 ^ 32" by (simp add: symbolTable_length)
  from of_nat_inj_32 [OF this] have "distinct (map snd ?st)"
    unfolding v by (simp add: distinct_map)
  then have inj: "inj_on snd (set ?st)" by (simp add: distinct_map)
  from x obtain i where i: "map_of ?st x = Some i"
    unfolding symbolTable_keys [symmetric] by (metis map_of_eq_None_iff not_Some_eq)
  from y obtain j where j: "map_of ?st y = Some j"
    unfolding symbolTable_keys [symmetric] by (metis map_of_eq_None_iff not_Some_eq)
  from eq i j have "i = j" by (simp add: name_id_def)
  with inj_onD [OF inj _ map_of_SomeD [OF i] map_of_SomeD [OF j]] have "(x, i) = (y, j)"
    by simp
  then show "x = y" by simp
qed

text \<open>Distances and diameter are the same in a graph and in its image under an injective renaming.\<close>

lemma relpow_image:
  fixes E :: "('a \<times> 'a) set" and f :: "'a \<Rightarrow> 'b"
  assumes inj: "inj_on f V" and sub: "E \<subseteq> V \<times> V" and u: "u \<in> V"
  shows "v \<in> V \<Longrightarrow> (f u, f v) \<in> (map_prod f f ` E) ^^ n \<longleftrightarrow> (u, v) \<in> E ^^ n"
proof (induction n arbitrary: v)
  case 0
  with inj u show ?case by (auto dest: inj_onD)
next
  case (Suc n)
  show ?case
  proof
    assume "(f u, f v) \<in> (map_prod f f ` E) ^^ Suc n"
    then obtain w' where w': "(f u, w') \<in> (map_prod f f ` E) ^^ n"
      and e: "(w', f v) \<in> map_prod f f ` E" by (rule relpow_Suc_E)
    from e obtain w v' where wv: "(w, v') \<in> E" "w' = f w" "f v = f v'" by auto
    from wv(1) sub have "w \<in> V" "v' \<in> V" by auto
    with inj Suc.prems wv(3) have "v' = v" by (auto dest: inj_onD)
    from Suc.IH [OF \<open>w \<in> V\<close>] w' wv(2) have "(u, w) \<in> E ^^ n" by simp
    moreover from wv(1) \<open>v' = v\<close> have "(w, v) \<in> E" by simp
    ultimately show "(u, v) \<in> E ^^ Suc n" by (rule relpow_Suc_I)
  next
    assume "(u, v) \<in> E ^^ Suc n"
    then obtain w where w: "(u, w) \<in> E ^^ n" and e: "(w, v) \<in> E" by auto
    from e sub have "w \<in> V" by auto
    from Suc.IH [OF this] w have "(f u, f w) \<in> (map_prod f f ` E) ^^ n" by simp
    moreover from e have "(f w, f v) \<in> map_prod f f ` E" by force
    ultimately show "(f u, f v) \<in> (map_prod f f ` E) ^^ Suc n" by (rule relpow_Suc_I)
  qed
qed

lemma graph_diameter_image:
  fixes E :: "('a \<times> 'a) set" and f :: "'a \<Rightarrow> 'b"
  assumes inj: "inj_on f V" and sub: "E \<subseteq> V \<times> V"
  shows "graph_diameter (f ` V) (map_prod f f ` E) = graph_diameter V E"
proof -
  let ?E' = "map_prod f f ` E"
  have d: "hop_dist ?E' (f u) (f v) = hop_dist E u v" if "u \<in> V" "v \<in> V" for u v
    unfolding hop_dist_def using relpow_image [OF inj sub that] by simp
  have conv: "?E' \<union> ?E'\<inverse> = map_prod f f ` (E \<union> E\<inverse>)" by force
  have sub': "E \<union> E\<inverse> \<subseteq> V \<times> V" using sub by auto
  have c: "same_component ?E' (f u) (f v) = same_component E u v" if "u \<in> V" "v \<in> V" for u v
    unfolding same_component_def conv rtrancl_power
    using relpow_image [OF inj sub' that] by simp
  have "{int (hop_dist ?E' u v) | u v. u \<in> f ` V \<and> v \<in> f ` V \<and> same_component ?E' u v}
        = {int (hop_dist E u v) | u v. u \<in> V \<and> v \<in> V \<and> same_component E u v}"
    (is "?L = ?R")
  proof (intro set_eqI iffI)
    fix y assume "y \<in> ?L"
    then obtain u v where "u \<in> V" "v \<in> V" "same_component ?E' (f u) (f v)"
      "y = int (hop_dist ?E' (f u) (f v))" by auto
    with c d show "y \<in> ?R" by auto
  next
    fix y assume "y \<in> ?R"
    then obtain u v where uv: "u \<in> V" "v \<in> V" "same_component E u v"
      "y = int (hop_dist E u v)" by auto
    with c d have "same_component ?E' (f u) (f v)" "y = int (hop_dist ?E' (f u) (f v))"
      by simp_all
    with uv(1,2) show "y \<in> ?L" by blast
  qed
  then show ?thesis by (simp add: graph_diameter_def)
qed

text \<open>
  The diameter in terms of the names: for a list of edges with at most \<open>2 ^ 32\<close>
  distinct names, \<^verbatim>\<open>diameter()\<close> is the diameter of the undirected graph whose nodes are
  the names and whose edges are the listed pairs.
\<close>

lemma diameter_names:
  assumes ok: "sched_ok sched" and bound: "card (names es) \<le> 2 ^ 32"
  shows "fst (diameter sched (build es)) = graph_diameter (names es) (set es \<union> (set es)\<inverse>)"
proof -
  have sub: "set es \<union> (set es)\<inverse> \<subseteq> names es \<times> names es"
    by (auto simp: names_def rev_image_eqI)
  have E: "edges (build es) = map_prod (name_id (build es)) (name_id (build es)) ` (set es \<union> (set es)\<inverse>)"
    unfolding edges_build by (intro image_cong) auto
  show ?thesis
    unfolding diameter_correct [OF wf_graph_build ok] node_ids_build E
    by (rule graph_diameter_image [OF name_id_inj [OF bound] sub])
qed

section \<open>Order of insertion\<close>

text \<open>
  As long as the ids are unique, that is for a list of edges with at most \<open>2 ^ 32\<close>
  distinct names, the order of insertion does not matter: the graphs built from the
  list and from a permutation of it have the same \<^verbatim>\<open>diameter()\<close>, whatever the orders
  of the \<^verbatim>\<open>range\<close> statements in the two queries.
\<close>

lemma insertion_order_does_not_change_diameter:
  assumes "mset es' = mset es" and "card (names es) \<le> 2 ^ 32"
    and "sched_ok sched" and "sched_ok sched'"
  shows "fst (diameter sched' (build es')) = fst (diameter sched (build es))"
proof -
  from assms(1) have s: "set es' = set es" by (rule mset_eq_setD)
  then have n: "names es' = names es" by (simp add: names_def)
  from diameter_names [OF assms(4), of es'] diameter_names [OF assms(3) assms(2)] assms(2)
  show ?thesis by (simp add: s n)
qed

lemma eval_orders:
  "fst (diameter (\<lambda>j. in_order) (build [(''a'', ''b''), (''b'', ''c''), (''c'', ''d'')])) = 3"
  "fst (diameter (\<lambda>j. reversed) (build [(''c'', ''d''), (''a'', ''b''), (''b'', ''c'')])) = 3"
  by code_simp+

lemma insertion_order_does_not_change_diameter_example:
  "mset [(''c'', ''d''), (''a'', ''b''), (''b'', ''c'')]
     = mset [(''a'', ''b''), (''b'', ''c''), (''c'', ''d'')]
   \<and> card (names [(''a'', ''b''), (''b'', ''c''), (''c'', ''d'')]) \<le> 2 ^ 32
   \<and> sched_ok (\<lambda>j. in_order) \<and> sched_ok (\<lambda>j. reversed)
   \<and> fst (diameter (\<lambda>j. reversed) (build [(''c'', ''d''), (''a'', ''b''), (''b'', ''c'')]))
       = fst (diameter (\<lambda>j. in_order) (build [(''a'', ''b''), (''b'', ''c''), (''c'', ''d'')]))
   \<and> fst (diameter (\<lambda>j. in_order) (build [(''a'', ''b''), (''b'', ''c''), (''c'', ''d'')])) = 3"
proof -
  have m: "mset [(''c'', ''d''), (''a'', ''b''), (''b'', ''c'')]
     = mset [(''a'', ''b''), (''b'', ''c''), (''c'', ''d'')]" by simp
  have "names [(''a'', ''b''), (''b'', ''c''), (''c'', ''d'')] = {''a'', ''b'', ''c'', ''d''}"
    by (auto simp: names_def)
  then have c: "card (names [(''a'', ''b''), (''b'', ''c''), (''c'', ''d'')]) \<le> 2 ^ 32"
    by simp
  from insertion_order_does_not_change_diameter [OF m c sched_ok_in_order sched_ok_reversed]
    m c sched_ok_in_order sched_ok_reversed eval_orders
  show ?thesis by simp
qed

text \<open>
  Beyond \<open>2 ^ 32\<close> distinct names the ids are no longer unique, against the comment
  \<^verbatim>\<open>nodeID is an unique identifier for each node\<close> and the fresh id that \<^verbatim>\<open>getID\<close>
  means to hand out: the conversion \<^verbatim>\<open>nodeID(len(s))\<close> is unchecked and gives the
  \<open>(2 ^ 32 + 1)\<close>-th distinct name the id 0, the id of the first name. Which two names
  collide depends on the order of insertion, and so does the diameter. The two lists
  below are permutations of one another over \<open>2 ^ 32 + 1\<close> distinct names: \<open>2 ^ 32 - 1\<close>
  self-loops, the self-loop on a name \<open>x\<close>, and the edge from \<open>x\<close> to a name \<open>y\<close>. In
  \<open>order_B\<close> the name \<open>x\<close> comes first and \<open>y\<close> last, so both get the id 0 and the edge
  becomes a loop: the diameter is 0. In \<open>order_A\<close> the name \<open>x\<close> gets the id \<open>2 ^ 32 - 1\<close>
  and \<open>y\<close> the id 0: the edge joins two nodes and the diameter is at least 1.
\<close>

definition big :: nat where
  "big = 2 ^ 32"

text \<open>Distinct short names: the number \<open>k\<close> written with base-256 digits, lowest first.\<close>

fun long_name :: "nat \<Rightarrow> nodeName" where
  "long_name k = char_of (k mod 256) # (if k < 256 then [] else long_name (k div 256))"

declare long_name.simps [simp del]

definition many_loops :: "(nodeName \<times> nodeName) list" where
  "many_loops = map (\<lambda>k. (long_name (Suc k), long_name (Suc k))) [0..<big - 1]"

definition order_A :: "(nodeName \<times> nodeName) list" where
  "order_A = (many_loops @ [(long_name 0, long_name 0)]) @ [(long_name 0, long_name big)]"

definition order_B :: "(nodeName \<times> nodeName) list" where
  "order_B = ((long_name 0, long_name 0) # many_loops) @ [(long_name 0, long_name big)]"

lemma big_pos: "0 < big"
  by (simp add: big_def)

lemma of_nat_big: "(of_nat big :: nodeID) = 0"
  by (simp add: big_def)

lemma of_nat_big_pred: "(of_nat (big - 1) :: nodeID) \<noteq> 0"
proof
  assume "(of_nat (big - 1) :: nodeID) = 0"
  then have "unat (of_nat (big - 1) :: nodeID) = 0" by simp
  then show False by (simp add: unat_of_nat big_def)
qed

lemma long_name_eq: "long_name i = long_name j \<Longrightarrow> i = j"
proof (induction i arbitrary: j rule: long_name.induct)
  case (1 k)
  from "1.prems" have h: "char_of (k mod 256) = (char_of (j mod 256) :: char)"
    and t: "(if k < 256 then [] else long_name (k div 256))
          = (if j < 256 then [] else long_name (j div 256))"
    by (subst (asm) long_name.simps, subst (asm) (2) long_name.simps, simp)+
  from h have "of_char (char_of (k mod 256) :: char) = (of_char (char_of (j mod 256) :: char) :: nat)"
    by simp
  then have m: "k mod 256 = j mod 256" by (simp add: of_char_of)
  have ne: "long_name n \<noteq> []" "[] \<noteq> long_name n" for n
    by (subst long_name.simps, simp)+
  show ?case
  proof (cases "k < 256")
    case True
    with t ne have "j < 256" by (auto split: if_splits)
    with True m show ?thesis by simp
  next
    case False
    with t ne have j: "\<not> j < 256" and "long_name (k div 256) = long_name (j div 256)"
      by (auto split: if_splits)
    from "1.IH" [OF False this(2)] have "k div 256 = j div 256" .
    with m show ?thesis by (metis div_mult_mod_eq)
  qed
qed

lemma long_name_inj: "long_name i = long_name j \<longleftrightarrow> i = j"
  using long_name_eq by auto

lemma names_many_loops: "names many_loops = (\<lambda>k. long_name (Suc k)) ` {0..<big - 1}"
  by (auto simp: names_def many_loops_def image_image)

lemma card_names_many_loops: "card (names many_loops) = big - 1"
proof -
  have "inj_on (\<lambda>k. long_name (Suc k)) {0..<big - 1}"
    by (rule inj_onI) (simp add: long_name_inj)
  from card_image [OF this] show ?thesis
    by (simp add: names_many_loops)
qed

lemma x_not_in_loops: "long_name 0 \<notin> names many_loops"
  by (auto simp: names_many_loops long_name_inj)

lemma y_not_in_loops: "long_name big \<notin> names many_loops"
  using big_pos by (auto simp: names_many_loops long_name_inj)

lemma names_with_x:
  "names ((long_name 0, long_name 0) # many_loops) = insert (long_name 0) (names many_loops)"
  "names (many_loops @ [(long_name 0, long_name 0)]) = insert (long_name 0) (names many_loops)"
  by (auto simp: names_def)

lemma finite_names: "finite (names es)"
  by (simp add: names_def)

lemma card_names_with_x:
  "card (names ((long_name 0, long_name 0) # many_loops)) = big"
  "card (names (many_loops @ [(long_name 0, long_name 0)])) = big"
  unfolding names_with_x
  using x_not_in_loops big_pos finite_names [of many_loops]
  by (simp_all add: card_names_many_loops)

lemma y_not_with_x:
  "long_name big \<notin> names ((long_name 0, long_name 0) # many_loops)"
  "long_name big \<notin> names (many_loops @ [(long_name 0, long_name 0)])"
  unfolding names_with_x using y_not_in_loops big_pos by (simp_all add: long_name_inj)

lemma new_name_id_left:
  assumes "x \<notin> names es"
  shows "name_id (addEdge (build es) x b) x = of_nat (card (names es))"
proof -
  from assms have none: "map_of (symbolTable (build es)) x = None"
    by (simp add: map_of_eq_None_iff symbolTable_keys)
  then have a: "getID (symbolTable (build es)) x
      = (of_nat (length (symbolTable (build es))),
         symbolTable (build es) @ [(x, of_nat (length (symbolTable (build es))))])"
    by (cases rule: getID_cases [of "symbolTable (build es)" x]) simp_all
  obtain ib s2 where b: "getID (symbolTable (build es)
      @ [(x, of_nat (length (symbolTable (build es))))]) b = (ib, s2)"
    by (cases "getID (symbolTable (build es)
      @ [(x, of_nat (length (symbolTable (build es))))]) b")
  from addEdge_spec(1,4) [OF wf_graph_build a b] show ?thesis
    by (simp add: name_id_def symbolTable_length)
qed

lemma new_name_id_right:
  assumes "a \<in> names es" and "y \<notin> names es"
  shows "name_id (addEdge (build es) a y) y = of_nat (card (names es))"
proof -
  from assms(1) obtain ia where "map_of (symbolTable (build es)) a = Some ia"
    unfolding symbolTable_keys [symmetric] by (metis map_of_eq_None_iff not_Some_eq)
  then have a: "getID (symbolTable (build es)) a = (ia, symbolTable (build es))"
    by (simp add: getID_def)
  from assms(2) have none: "map_of (symbolTable (build es)) y = None"
    by (simp add: map_of_eq_None_iff symbolTable_keys)
  then have b: "getID (symbolTable (build es)) y
      = (of_nat (length (symbolTable (build es))),
         symbolTable (build es) @ [(y, of_nat (length (symbolTable (build es))))])"
    by (cases rule: getID_cases [of "symbolTable (build es)" y]) simp_all
  from addEdge_spec(1,5) [OF wf_graph_build a b] show ?thesis
    by (simp add: name_id_def symbolTable_length)
qed

lemma first_name_id: "name_id (build ((x, b) # es)) x = 0"
proof (induction es rule: rev_induct)
  case Nil
  have "x \<notin> names []" by (simp add: names_def)
  from new_name_id_left [OF this, of b] show ?case
    using build_snoc [of "[]" x b] by (simp add: names_def)
next
  case (snoc e es)
  obtain c d where e: "e = (c, d)" by (cases e)
  have "x \<in> names ((x, b) # es)" by (simp add: names_def)
  from name_id_addEdge [OF this, of c d] snoc show ?case
    using build_snoc [of "(x, b) # es" c d] by (simp add: e)
qed

lemma graph_diameter_loops_only:
  assumes "E \<subseteq> Id"
  shows "graph_diameter V E = 0"
proof (cases "V = {}")
  case True
  then show ?thesis by (simp add: graph_diameter_def)
next
  case False
  from assms have "E \<union> E\<inverse> \<subseteq> Id" by auto
  then have "(E \<union> E\<inverse>)\<^sup>* \<subseteq> Id\<^sup>*" by (rule rtrancl_mono)
  also have "Id\<^sup>* = (Id :: ('a \<times> 'a) set)"
    by (metis rtrancl_empty rtrancl_idemp)
  finally have "same_component E u v \<longleftrightarrow> u = v" for u v
    by (auto simp: same_component_def)
  then have "{int (hop_dist E u v) | u v. u \<in> V \<and> v \<in> V \<and> same_component E u v} = {0}"
    using False by auto
  with False show ?thesis by (simp add: graph_diameter_def)
qed

lemma graph_diameter_proper_edge:
  assumes fin: "finite V" and e: "(u, v) \<in> E" and ne: "u \<noteq> v" and uv: "u \<in> V" "v \<in> V"
  shows "1 \<le> graph_diameter V E"
proof -
  let ?S = "{int (hop_dist E u v) | u v. u \<in> V \<and> v \<in> V \<and> same_component E u v}"
  have "?S \<subseteq> (\<lambda>(u, v). int (hop_dist E u v)) ` (V \<times> V)" by auto
  then have finS: "finite ?S"
    by (rule finite_subset) (simp add: fin)
  from e have r: "(u, v) \<in> E\<^sup>*" by auto
  from e have "same_component E u v" by (auto simp: same_component_def)
  with uv have "int (hop_dist E u v) \<in> ?S" by blast
  from Max_ge [OF finS this] uv have "int (hop_dist E u v) \<le> graph_diameter V E"
    by (auto simp: graph_diameter_def)
  moreover have "hop_dist E u v \<noteq> 0"
  proof
    assume "hop_dist E u v = 0"
    with hop_dist_path [OF r] ne show False by simp
  qed
  ultimately show ?thesis by simp
qed

lemma name_ids_order_B:
  "name_id (build order_B) (long_name 0) = 0" "name_id (build order_B) (long_name big) = 0"
proof -
  let ?x = "long_name 0" and ?y = "long_name big"
  let ?P = "(?x, ?x) # many_loops"
  have g: "build order_B = addEdge (build ?P) ?x ?y"
    unfolding order_B_def by (rule build_snoc)
  have xP: "?x \<in> names ?P" by (simp add: names_def)
  show "name_id (build order_B) ?x = 0"
    unfolding g name_id_addEdge [OF xP] by (rule first_name_id)
  show "name_id (build order_B) ?y = 0"
    unfolding g new_name_id_right [OF xP y_not_with_x(1)] card_names_with_x(1)
    by (rule of_nat_big)
qed

lemma diameter_order_B: "fst (diameter (\<lambda>j. in_order) (build order_B)) = 0"
proof -
  let ?x = "long_name 0" and ?y = "long_name big"
  let ?P = "(?x, ?x) # many_loops"
  let ?g = "build order_B"
  have g: "?g = addEdge (build ?P) ?x ?y"
    unfolding order_B_def by (rule build_snoc)
  have xP: "?x \<in> names ?P" by (simp add: names_def)
  have idx: "name_id ?g ?x = 0"
    unfolding g name_id_addEdge [OF xP] by (rule first_name_id)
  have idy: "name_id ?g ?y = 0"
    unfolding g new_name_id_right [OF xP y_not_with_x(1)] card_names_with_x(1)
    by (rule of_nat_big)
  have "a = b \<or> (a, b) = (?x, ?y) \<or> (a, b) = (?y, ?x)"
    if "(a, b) \<in> set order_B \<union> (set order_B)\<inverse>" for a b
    using that by (auto simp: order_B_def many_loops_def)
  then have "edges ?g \<subseteq> Id"
    unfolding edges_build using idx idy by force
  from graph_diameter_loops_only [OF this] show ?thesis
    using diameter_correct [OF wf_graph_build sched_ok_in_order, of order_B] by simp
qed

lemma diameter_order_A: "1 \<le> fst (diameter (\<lambda>j. in_order) (build order_A))"
proof -
  let ?x = "long_name 0" and ?y = "long_name big"
  let ?L = "many_loops"
  let ?Q = "many_loops @ [(?x, ?x)]"
  let ?g = "build order_A"
  have g: "?g = addEdge (build ?Q) ?x ?y"
    unfolding order_A_def by (rule build_snoc)
  have q: "build ?Q = addEdge (build ?L) ?x ?x"
    by (rule build_snoc)
  have xQ: "?x \<in> names ?Q" by (simp add: names_def)
  have "name_id ?g ?x = name_id (build ?Q) ?x"
    unfolding g by (rule name_id_addEdge [OF xQ])
  also have "\<dots> = of_nat (card (names ?L))"
    unfolding q by (rule new_name_id_left [OF x_not_in_loops])
  finally have idx: "name_id ?g ?x = of_nat (big - 1)"
    by (simp add: card_names_many_loops)
  have idy: "name_id ?g ?y = 0"
    unfolding g new_name_id_right [OF xQ y_not_with_x(2)] card_names_with_x(2)
    by (rule of_nat_big)
  have "(?x, ?y) \<in> set order_A \<union> (set order_A)\<inverse>"
    by (simp add: order_A_def)
  then have "(name_id ?g (fst (?x, ?y)), name_id ?g (snd (?x, ?y))) \<in> edges ?g"
    unfolding edges_build by (rule imageI)
  then have e: "(of_nat (big - 1), 0) \<in> edges ?g"
    using idx idy by simp
  from wf_edges_nodes [OF wf_graph_build e]
  have "1 \<le> graph_diameter (node_ids ?g) (edges ?g)"
    by (intro graph_diameter_proper_edge [OF _ e of_nat_big_pred]) (simp_all add: node_ids_def)
  then show ?thesis
    using diameter_correct [OF wf_graph_build sched_ok_in_order, of order_A] by simp
qed

lemma names_diameter_order_B:
  "1 \<le> graph_diameter (names order_B) (set order_B \<union> (set order_B)\<inverse>)"
proof (rule graph_diameter_proper_edge [where u = "long_name 0" and v = "long_name big"])
  show "finite (names order_B)" by (rule finite_names)
  show "(long_name 0, long_name big) \<in> set order_B \<union> (set order_B)\<inverse>"
    by (simp add: order_B_def)
  show "long_name 0 \<noteq> long_name big"
    using big_pos by (simp add: long_name_inj)
  show "long_name 0 \<in> names order_B" "long_name big \<in> names order_B"
    by (simp_all add: names_def order_B_def)
qed

text \<open>
  C6. The claim: for every list of edges and every permutation of it, the graphs built
  from the two orders have the same \<^verbatim>\<open>diameter()\<close>. The code breaks it at the lists
  \<open>order_A\<close> and \<open>order_B\<close>, permutations of one another with \<open>2 ^ 32 + 1\<close> distinct names:
  \<^verbatim>\<open>diameter()\<close> is 0 on the graph built from \<open>order_B\<close> and at least 1 on the graph built
  from \<open>order_A\<close>. The value for \<open>order_B\<close> is the wrong one: in the graph of names the edge
  from \<open>x\<close> to \<open>y\<close> joins two different nodes, so its diameter is at least 1, but \<^verbatim>\<open>getID\<close>
  has given \<open>y\<close> the id of \<open>x\<close>.
\<close>

theorem insertion_order_changes_diameter:
  "mset order_B = mset order_A
   \<and> fst (diameter (\<lambda>j. in_order) (build order_B)) = 0
   \<and> 1 \<le> fst (diameter (\<lambda>j. in_order) (build order_A))
   \<and> fst (diameter (\<lambda>j. in_order) (build order_B))
       \<noteq> fst (diameter (\<lambda>j. in_order) (build order_A))
   \<and> name_id (build order_B) (long_name 0) = name_id (build order_B) (long_name big)
   \<and> long_name 0 \<noteq> long_name big
   \<and> 1 \<le> graph_diameter (names order_B) (set order_B \<union> (set order_B)\<inverse>)"
proof -
  have "mset order_B = mset order_A"
    by (simp add: order_A_def order_B_def)
  moreover have "long_name 0 \<noteq> long_name big"
    using big_pos by (simp add: long_name_inj)
  ultimately show ?thesis
    using diameter_order_A diameter_order_B names_diameter_order_B name_ids_order_B by simp
qed

section \<open>Depths stay in the range of a Go int\<close>

text \<open>
  \<^verbatim>\<open>bfsNode.depth\<close> and the results are Go \<^verbatim>\<open>int\<close>s, modelled as unbounded integers. That
  loses nothing: in any state of the heap and for any order of the \<^verbatim>\<open>range\<close>
  statements, every depth recorded is at least 0 and at most the number of entries of
  the BFS map, which has distinct 32-bit keys. So no addition \<^verbatim>\<open>depth + 1\<close> can overflow.
\<close>

definition depths_ok :: "bfsData \<Rightarrow> bool" where
  "depths_ok d =
     (bfs_data_ok d \<and> (\<forall>e \<in> set d. 0 \<le> depth (snd e) \<and> depth (snd e) \<le> int (length d)))"

lemma depths_ok_get:
  assumes "depths_ok d"
  shows "0 \<le> depth (bfs_get d i) \<and> depth (bfs_get d i) \<le> int (length d)"
proof (cases "map_of d i")
  case None
  then show ?thesis by (simp add: bfs_get_def)
next
  case (Some b)
  from map_of_SomeD [OF Some] assms have "0 \<le> depth b \<and> depth b \<le> int (length d)"
    by (auto simp: depths_ok_def)
  with Some show ?thesis by (simp add: bfs_get_def)
qed

lemma depths_ok_visit:
  assumes ok: "depths_ok d" and v: "visit h n e (d, q) = (d', q')"
  shows "depths_ok d'"
proof (cases "parent (bfs_get d (fst e)) = None")
  case False
  with v ok show ?thesis by (simp add: visit_def split: prod.splits)
next
  case True
  let ?b = "\<lparr>parent = Some n, depth = depth (bfs_get d (id' (h ! n))) + 1\<rparr>"
  from True v have d': "d' = AList.update (fst e) ?b d"
    by (auto simp: visit_def split: prod.splits)
  have none: "map_of d (fst e) = None"
  proof (cases "map_of d (fst e)")
    case (Some b)
    from map_of_SomeD [OF Some] ok have "parent b \<noteq> None"
      by (auto simp: depths_ok_def bfs_data_ok_def)
    with Some True show ?thesis by (simp add: bfs_get_def)
  qed simp
  then have app: "d' = d @ [(fst e, ?b)]"
    unfolding d' by (rule update_fresh)
  from ok have "bfs_data_ok d" by (simp add: depths_ok_def)
  then have 1: "bfs_data_ok d'"
    unfolding d' by (rule bfs_data_ok_update)
  have 2: "\<forall>x \<in> set d'. 0 \<le> depth (snd x) \<and> depth (snd x) \<le> int (length d')"
    unfolding app using ok depths_ok_get [OF ok, of "id' (h ! n)"]
    by (auto simp: depths_ok_def)
  from 1 2 show ?thesis by (simp add: depths_ok_def)
qed

lemma depths_ok_fold:
  "depths_ok d \<Longrightarrow> fold (visit h n) es (d, q) = (d', q') \<Longrightarrow> depths_ok d'"
proof (induction es arbitrary: d q)
  case Nil
  then show ?case by simp
next
  case (Cons e es)
  obtain d1 q1 where v: "visit h n e (d, q) = (d1, q1)" by (cases "visit h n e (d, q)")
  with Cons.prems(2) have "fold (visit h n) es (d1, q1) = (d', q')" by simp
  from Cons.IH [OF depths_ok_visit [OF Cons.prems(1) v] this] show ?case .
qed

lemma depths_ok_loop:
  "depths_ok d \<Longrightarrow> bfs_loop ord k h d q n = (d', l) \<Longrightarrow> depths_ok d'"
proof (induction ord k h d q n rule: bfs_loop.induct)
  case (1 ord k h d n)
  then show ?case by simp
next
  case (2 ord k h d x q n)
  obtain d1 q1 where f: "fold (visit h x) (ord k (adj (h ! x))) (d, q) = (d1, q1)"
    by (cases "fold (visit h x) (ord k (adj (h ! x))) (d, q)")
  from "2.prems"(2) f have "bfs_loop ord (Suc k) h d1 q1 x = (d', l)" by simp
  from "2.IH" [OF f [symmetric] depths_ok_fold [OF "2.prems"(1) f] this] show ?case .
qed

lemma distinct_ids_length:
  fixes xs :: "(nodeID \<times> 'a) list"
  assumes "distinct (map fst xs)"
  shows "int (length xs) \<le> 2 ^ 32"
proof -
  from distinct_card [OF assms] have "length xs = card (fst ` set xs)" by simp
  also have "\<dots> \<le> card (UNIV :: nodeID set)"
    by (intro card_mono) simp_all
  also have "\<dots> = 2 ^ 32" by (simp add: card_word)
  finally show ?thesis by simp
qed

lemma longestShortestPath_range:
  "0 \<le> fst (longestShortestPath ord g s) \<and> fst (longestShortestPath ord g s) \<le> 2 ^ 32"
proof -
  obtain n g' where gt: "get g s = (n, g')" by (cases "get g s")
  let ?d0 = "AList.update (id' (heap g' ! n)) \<lparr>parent = Some n, depth = 0\<rparr> []"
  obtain d l where r: "bfs_loop ord 0 (heap g') ?d0 [n] n = (d, l)"
    by (cases "bfs_loop ord 0 (heap g') ?d0 [n] n")
  have "depths_ok ?d0" by (simp add: depths_ok_def bfs_data_ok_def)
  from depths_ok_loop [OF this r] have ok: "depths_ok d" .
  then have "int (length d) \<le> 2 ^ 32"
    by (intro distinct_ids_length) (simp add: depths_ok_def bfs_data_ok_def)
  with depths_ok_get [OF ok, of "id' (heap g' ! l)"]
  have "0 \<le> depth (bfs_get d (id' (heap g' ! l))) \<and> depth (bfs_get d (id' (heap g' ! l))) \<le> 2 ^ 32"
    by simp
  then show ?thesis
    unfolding longestShortestPath_def gt prod.case r fst_conv .
qed

lemma diameter_loop_range:
  "0 \<le> diam \<Longrightarrow> diam \<le> 2 ^ 32 \<Longrightarrow>
   0 \<le> fst (diameter_loop sched j es diam g) \<and> fst (diameter_loop sched j es diam g) \<le> 2 ^ 32"
proof (induction es arbitrary: j diam g)
  case Nil
  then show ?case by simp
next
  case (Cons e es)
  obtain df g' where l: "longestShortestPath (sched (Suc j)) g (fst e) = (df, g')"
    by (cases "longestShortestPath (sched (Suc j)) g (fst e)")
  from longestShortestPath_range [of "sched (Suc j)" g "fst e"] l
  have "0 \<le> df" "df \<le> 2 ^ 32" by simp_all
  with Cons.prems have "0 \<le> (if df > diam then df else diam)"
    "(if df > diam then df else diam) \<le> 2 ^ 32" by simp_all
  from Cons.IH [OF this] l show ?case by simp
qed

text \<open>
  For every graph state and every order of the \<^verbatim>\<open>range\<close> statements the value of
  \<^verbatim>\<open>diameter()\<close> is at least 0 and at most \<open>2 ^ 32\<close>.
\<close>

theorem diameter_range:
  "0 \<le> fst (diameter sched g) \<and> fst (diameter sched g) \<le> 2 ^ 32"
  unfolding diameter_def by (rule diameter_loop_range) simp_all

end
